theory Spec2Isabelle
  imports Main "HOL-Library.Multiset"
begin

section \<open>Data model (types/editor.ts)\<close>

text \<open>
  The interfaces \<open>Port\<close>, \<open>CanvasNode\<close> and \<open>Connection\<close>. The fields \<open>id\<close>, \<open>type\<close>
  and \<open>name\<close> carry a prefix, since \<open>id\<close> is a constant of HOL. The layout fields of
  \<open>CanvasNode\<close> (\<open>x\<close>, \<open>y\<close>, \<open>width\<close>, \<open>height\<close>, \<open>color\<close>, \<open>icon\<close>, \<open>aiGenerated\<close>,
  \<open>description\<close>, \<open>code\<close>) are read by none of the functions below and are left out.

  Strings are \<open>string\<close>.
\<close>

record Port =
  port_id :: string
  port_name :: string
  port_type :: string

record CanvasNode =
  node_id :: string
  node_type :: string
  node_name :: string
  inputs :: "Port list"
  outputs :: "Port list"

record Connection =
  conn_id :: string
  sourceNodeId :: string
  targetNodeId :: string
  sourcePortId :: string
  targetPortId :: string

section \<open>Exceptions and plain objects used as dictionaries\<close>

text \<open>
  Calling a method that a value does not have, or reading a property of \<open>undefined\<close>,
  throws a \<open>TypeError\<close>. A function that can throw returns \<open>Inl TypeError\<close>; \<open>Inr\<close>
  carries the value of a normal return.
\<close>

datatype js_error = TypeError

text \<open>
  A plain object (\<open>{}\<close> or an object literal) inherits the properties of
  \<open>Object.prototype\<close>, so a lookup \<open>obj[key]\<close> of a key that is no own property
  is \<open>undefined\<close> only when the key is none of the names below. The inherited values
  are functions, and for \<open>__proto__\<close> the prototype object itself: all are truthy
  and none has a method \<open>includes\<close>, \<open>push\<close> or \<open>forEach\<close>.
\<close>

definition objectPrototypeKeys :: "string list" where
  "objectPrototypeKeys =
     [''constructor'', ''__defineGetter__'', ''__defineSetter__'', ''hasOwnProperty'',
      ''__lookupGetter__'', ''__lookupSetter__'', ''isPrototypeOf'', ''propertyIsEnumerable'',
      ''toString'', ''valueOf'', ''__proto__'', ''toLocaleString'']"

section \<open>ConnectionValidator (connection validation module of solanaUtils.ts)\<close>

record ValidationResult =
  isValid :: bool
  error :: "string option"

text \<open>The own properties of the literal \<open>compatibilityMap\<close> of \<open>areTypesCompatible\<close>.\<close>

definition compatibilityMap :: "string \<rightharpoonup> string list" where
  "compatibilityMap = map_of
     [(''number'', [''string'', ''boolean'']),
      (''string'', [''number'']),
      (''data'', [''any'']),
      (''control'', [''event'']),
      (''event'', [''control''])]"

text \<open>
  \<open>compatibilityMap[sourceType]?.includes(targetType) || false\<close>: for a key that is
  neither an own nor an inherited property the lookup gives \<open>undefined\<close>, \<open>?.\<close> stops
  there and \<open>||\<close> gives \<open>false\<close>. For an inherited name the lookup gives a value
  without \<open>includes\<close>, and the call throws.
\<close>

definition areTypesCompatible :: "string \<Rightarrow> string \<Rightarrow> js_error + bool" where
  "areTypesCompatible sourceType targetType =
     (if sourceType = ''any'' \<or> targetType = ''any'' then Inr True
      else if sourceType = targetType then Inr True
      else (case compatibilityMap sourceType of
              Some ts \<Rightarrow> Inr (targetType \<in> set ts)
            | None \<Rightarrow>
                if sourceType \<in> set objectPrototypeKeys then Inl TypeError else Inr False))"

definition sameConnection :: "CanvasNode \<Rightarrow> Port \<Rightarrow> CanvasNode \<Rightarrow> Port \<Rightarrow> Connection \<Rightarrow> bool" where
  "sameConnection sourceNode sourcePort targetNode targetPort conn =
     (sourceNodeId conn = node_id sourceNode \<and>
      targetNodeId conn = node_id targetNode \<and>
      sourcePortId conn = port_id sourcePort \<and>
      targetPortId conn = port_id targetPort)"

definition sameInput :: "CanvasNode \<Rightarrow> Port \<Rightarrow> Connection \<Rightarrow> bool" where
  "sameInput targetNode targetPort conn =
     (targetNodeId conn = node_id targetNode \<and> targetPortId conn = port_id targetPort)"

text \<open>
  \<open>validateConnection\<close>: four checks in the order of the source, each returning at
  once; an exception of the type check leaves the function. \<open>Array.prototype.find\<close>
  gives the first match or \<open>undefined\<close>; a Connection object is truthy.
\<close>

definition validateConnection ::
  "CanvasNode \<Rightarrow> Port \<Rightarrow> CanvasNode \<Rightarrow> Port \<Rightarrow> Connection list \<Rightarrow>
     js_error + ValidationResult" where
  "validateConnection sourceNode sourcePort targetNode targetPort existingConnections =
     (if node_id sourceNode = node_id targetNode then
        Inr \<lparr>isValid = False, error = Some ''Cannot connect node to itself''\<rparr>
      else
        (case areTypesCompatible (port_type sourcePort) (port_type targetPort) of
           Inl e \<Rightarrow> Inl e
         | Inr compatible \<Rightarrow>
             if \<not> compatible then
               Inr \<lparr>isValid = False,
                    error = Some (''Incompatible types: '' @ port_type sourcePort @ '' -> '' @
                                  port_type targetPort)\<rparr>
             else
               (case find (sameConnection sourceNode sourcePort targetNode targetPort)
                       existingConnections of
                  Some existingConnection \<Rightarrow>
                    Inr \<lparr>isValid = False, error = Some ''Connection already exists''\<rparr>
                | None \<Rightarrow>
                   (case find (sameInput targetNode targetPort) existingConnections of
                      Some existingInputConnection \<Rightarrow>
                        Inr \<lparr>isValid = False,
                             error = Some ''Port already has an input connection''\<rparr>
                    | None \<Rightarrow> Inr \<lparr>isValid = True, error = None\<rparr>))))"

section \<open>ProgramFlowAnalyzer (flow analysis module of solanaUtils.ts)\<close>

text \<open>
  The traversals recurse, so they take a bound on the depth of the recursion (fuel):
  \<open>None\<close> says that the bound was reached, and the theorems show that a bound above
  the number of nodes is never reached. The call stack of the JavaScript engine is
  taken to be deep enough for a recursion as deep as the number of nodes.
\<close>

type_synonym 'a js_result = "(js_error + 'a) option"

text \<open>
  \<open>Array.prototype.forEach\<close> with a callback that updates the captured variables
  (the state \<open>'s\<close>): an exception of the callback ends the loop.
\<close>

fun forEach :: "('a \<Rightarrow> 's \<Rightarrow> 's js_result) \<Rightarrow> 'a list \<Rightarrow> 's \<Rightarrow> 's js_result" where
  "forEach f [] s = Some (Inr s)"
| "forEach f (x # xs) s =
     (case f x s of
        None \<Rightarrow> None
      | Some (Inl e) \<Rightarrow> Some (Inl e)
      | Some (Inr s') \<Rightarrow> forEach f xs s')"

type_synonym deps = "string \<rightharpoonup> string list"

text \<open>
  The object \<open>dependencies\<close> of \<open>analyzeFlow\<close> starts as \<open>{}\<close>. A map of type \<open>deps\<close>
  holds the arrays that the object yields on lookup: its own properties and, under the
  key \<open>__proto__\<close>, its prototype once that is an array. For
  \<open>dependencies[node.id] = []\<close> creates an own property, except that for the id
  \<open>__proto__\<close> it calls the inherited setter, which makes the new array the prototype
  of \<open>dependencies\<close>; \<open>dependencies["__proto__"]\<close> then reads that array back.
\<close>

definition initDependencies :: "CanvasNode list \<Rightarrow> deps" where
  "initDependencies nodes = fold (\<lambda>node d. d(node_id node \<mapsto> [])) nodes Map.empty"

text \<open>
  \<open>arrayIndex k\<close> is the index that the key \<open>k\<close> denotes on an array: a decimal
  numeral without leading zero.
\<close>

definition isDigit :: "char \<Rightarrow> bool" where
  "isDigit c = (c \<in> set ''0123456789'')"

definition arrayIndex :: "string \<Rightarrow> nat option" where
  "arrayIndex k =
     (if k \<noteq> [] \<and> list_all isDigit k \<and> (k = ''0'' \<or> hd k \<noteq> CHR ''0'')
      then Some (foldl (\<lambda>a c. 10 * a + (of_char c - 48)) 0 k)
      else None)"

text \<open>
  \<open>inheritedTruthy arrayProto d k\<close>: the truthiness of \<open>dependencies[k]\<close> for a key
  \<open>k\<close> without an entry in \<open>d\<close>. While the prototype is \<open>Object.prototype\<close>, the
  lookup is truthy exactly on the inherited names. Once the prototype is an array
  \<open>p\<close>, the lookup finds the elements of \<open>p\<close> under their indices (a string, truthy
  unless empty), its \<open>length\<close> (truthy unless zero), then the properties of
  \<open>Array.prototype\<close> and of \<open>Object.prototype\<close>. The names of the properties of
  \<open>Array.prototype\<close> (functions such as \<open>push\<close> and \<open>forEach\<close>) differ between
  editions of the language: they are the parameter \<open>arrayProto\<close>. None of these
  inherited values is an array.
\<close>

definition inheritedTruthy :: "string set \<Rightarrow> deps \<Rightarrow> string \<Rightarrow> bool" where
  "inheritedTruthy arrayProto d k =
     (case d ''__proto__'' of
        None \<Rightarrow> k \<in> set objectPrototypeKeys
      | Some p \<Rightarrow>
         (case arrayIndex k of
            Some i \<Rightarrow>
              if i < length p then p ! i \<noteq> []
              else k \<in> arrayProto \<or> k \<in> set objectPrototypeKeys
          | None \<Rightarrow>
              if k = ''length'' then p \<noteq> []
              else k \<in> arrayProto \<or> k \<in> set objectPrototypeKeys))"

text \<open>
  The callback of \<open>connections.forEach\<close>: when \<open>dependencies[connection.targetNodeId]\<close>
  is an array (also an empty one is truthy) the source is pushed; when it is
  \<open>undefined\<close> or falsy the connection is skipped; when it is an inherited truthy
  value, that value has no \<open>push\<close> and the call throws.
\<close>

definition addDependency :: "string set \<Rightarrow> Connection \<Rightarrow> deps \<Rightarrow> js_error + deps" where
  "addDependency arrayProto connection d =
     (case d (targetNodeId connection) of
        Some ds \<Rightarrow> Inr (d(targetNodeId connection \<mapsto> ds @ [sourceNodeId connection]))
      | None \<Rightarrow>
          if inheritedTruthy arrayProto d (targetNodeId connection) then Inl TypeError
          else Inr d)"

definition buildDependencies :: "string set \<Rightarrow> CanvasNode list \<Rightarrow> Connection list \<Rightarrow> deps js_result" where
  "buildDependencies arrayProto nodes connections =
     forEach (\<lambda>connection d. Some (addDependency arrayProto connection d)) connections
       (initDependencies nodes)"

subsection \<open>topologicalSort\<close>

text \<open>The captured variables \<open>visited\<close>, \<open>visiting\<close> and \<open>result\<close> of \<open>topologicalSort\<close>.\<close>

record sort_state =
  ts_visited :: "string set"
  ts_visiting :: "string set"
  ts_result :: "string list"

text \<open>
  The closure \<open>visit\<close>. \<open>dependencies[nodeId].forEach\<close> throws when \<open>nodeId\<close> has no
  entry in the map: the lookup is then \<open>undefined\<close> or an inherited value that is no
  array. The exception leaves \<open>topologicalSort\<close>, so the state at that point is lost.
\<close>

fun visit :: "nat \<Rightarrow> deps \<Rightarrow> string \<Rightarrow> sort_state \<Rightarrow> sort_state js_result" where
  "visit 0 dependencies nodeId st = None"
| "visit (Suc fuel) dependencies nodeId st =
     (if nodeId \<in> ts_visiting st then Some (Inr st)
      else if nodeId \<in> ts_visited st then Some (Inr st)
      else (case dependencies nodeId of
              None \<Rightarrow> Some (Inl TypeError)
            | Some ds \<Rightarrow>
               (case forEach (visit fuel dependencies) ds
                       (st\<lparr>ts_visiting := insert nodeId (ts_visiting st)\<rparr>) of
                  None \<Rightarrow> None
                | Some (Inl e) \<Rightarrow> Some (Inl e)
                | Some (Inr st') \<Rightarrow>
                    Some (Inr (st'\<lparr>ts_visiting := ts_visiting st' - {nodeId},
                                   ts_visited := insert nodeId (ts_visited st'),
                                   ts_result := ts_result st' @ [nodeId]\<rparr>)))))"

definition topologicalSort :: "nat \<Rightarrow> string list \<Rightarrow> deps \<Rightarrow> string list js_result" where
  "topologicalSort fuel nodeIds dependencies =
     (case forEach (visit fuel dependencies) nodeIds
             \<lparr>ts_visited = {}, ts_visiting = {}, ts_result = []\<rparr> of
        None \<Rightarrow> None
      | Some (Inl e) \<Rightarrow> Some (Inl e)
      | Some (Inr st) \<Rightarrow> Some (Inr (ts_result st)))"

subsection \<open>detectCycles\<close>

text \<open>
  \<open>Array.prototype.indexOf\<close> (the first index, or \<open>-1\<close>) and \<open>Array.prototype.slice\<close>
  with one argument (a negative start counts from the end).
\<close>

fun indexOf :: "'a list \<Rightarrow> 'a \<Rightarrow> int" where
  "indexOf [] y = -1"
| "indexOf (x # xs) y =
     (if x = y then 0 else (let i = indexOf xs y in if i < 0 then -1 else i + 1))"

definition slice :: "'a list \<Rightarrow> int \<Rightarrow> 'a list" where
  "slice xs start =
     (let n = int (length xs);
          k = (if start < 0 then max (n + start) 0 else min start n)
      in drop (nat k) xs)"

record cycle_state =
  dc_cycles :: "string list list"
  dc_visited :: "string set"
  dc_visiting :: "string set"

text \<open>
  The closure \<open>visit\<close> of \<open>detectCycles\<close>. Every callee receives its own copy
  \<open>[...path]\<close> of the path, so \<open>path.push\<close> changes nothing the caller reads.
\<close>

fun visitCycle :: "nat \<Rightarrow> deps \<Rightarrow> string \<Rightarrow> string list \<Rightarrow> cycle_state \<Rightarrow> cycle_state js_result" where
  "visitCycle 0 dependencies nodeId path st = None"
| "visitCycle (Suc fuel) dependencies nodeId path st =
     (if nodeId \<in> dc_visiting st then
        Some (Inr (st\<lparr>dc_cycles := dc_cycles st @ [slice path (indexOf path nodeId)]\<rparr>))
      else if nodeId \<in> dc_visited st then Some (Inr st)
      else (case dependencies nodeId of
              None \<Rightarrow> Some (Inl TypeError)
            | Some ds \<Rightarrow>
               (case forEach (\<lambda>dep. visitCycle fuel dependencies dep (path @ [nodeId])) ds
                       (st\<lparr>dc_visiting := insert nodeId (dc_visiting st)\<rparr>) of
                  None \<Rightarrow> None
                | Some (Inl e) \<Rightarrow> Some (Inl e)
                | Some (Inr st') \<Rightarrow>
                    Some (Inr (st'\<lparr>dc_visiting := dc_visiting st' - {nodeId},
                                   dc_visited := insert nodeId (dc_visited st')\<rparr>)))))"

definition detectCycles :: "nat \<Rightarrow> string list \<Rightarrow> deps \<Rightarrow> string list list js_result" where
  "detectCycles fuel nodeIds dependencies =
     (case forEach (\<lambda>nodeId. visitCycle fuel dependencies nodeId []) nodeIds
             \<lparr>dc_cycles = [], dc_visited = {}, dc_visiting = {}\<rparr> of
        None \<Rightarrow> None
      | Some (Inl e) \<Rightarrow> Some (Inl e)
      | Some (Inr st) \<Rightarrow> Some (Inr (dc_cycles st)))"

subsection \<open>findIsolatedNodes and analyzeFlow\<close>

definition findIsolatedNodes :: "CanvasNode list \<Rightarrow> Connection list \<Rightarrow> string list" where
  "findIsolatedNodes nodes connections =
     (let connectedNodes =
            fold (\<lambda>connection s. insert (targetNodeId connection) (insert (sourceNodeId connection) s))
              connections {}
      in map node_id (filter (\<lambda>node. node_id node \<notin> connectedNodes) nodes))"

record FlowAnalysis =
  executionOrder :: "string list"
  dependencies :: deps
  cycles :: "string list list"
  isolatedNodes :: "string list"

text \<open>\<open>analyzeFlow\<close>; the constant \<open>nodeMap\<close> of the source is never read.\<close>

definition analyzeFlow ::
  "nat \<Rightarrow> string set \<Rightarrow> CanvasNode list \<Rightarrow> Connection list \<Rightarrow> FlowAnalysis js_result" where
  "analyzeFlow fuel arrayProto nodes connections =
     (case buildDependencies arrayProto nodes connections of
        None \<Rightarrow> None
      | Some (Inl e) \<Rightarrow> Some (Inl e)
      | Some (Inr d) \<Rightarrow>
         (case topologicalSort fuel (map node_id nodes) d of
            None \<Rightarrow> None
          | Some (Inl e) \<Rightarrow> Some (Inl e)
          | Some (Inr order) \<Rightarrow>
             (case detectCycles fuel (map node_id nodes) d of
                None \<Rightarrow> None
              | Some (Inl e) \<Rightarrow> Some (Inl e)
              | Some (Inr cs) \<Rightarrow>
                  Some (Inr \<lparr>executionOrder = order, dependencies = d, cycles = cs,
                             isolatedNodes = findIsolatedNodes nodes connections\<rparr>))))"

section \<open>Code generation (code generation module of use-auth.tsx)\<close>

record DataFlowConnection =
  df_from :: string
  df_to :: string
  dataType :: string
  required :: bool

text \<open>
  \<open>ProgramFlow\<close>; its field \<open>executionOrder\<close> is \<open>flowOrder\<close> here, the name being
  taken by \<open>FlowAnalysis\<close>.
\<close>

record ProgramFlow =
  entryPoints :: "string list"
  flowOrder :: "string list"
  dataFlow :: "DataFlowConnection list"

text \<open>The captured variables \<open>visited\<close>, \<open>visiting\<close> and \<open>executionOrder\<close> of \<open>analyzeProgramFlow\<close>.\<close>

record flow_state =
  pf_visited :: "string set"
  pf_visiting :: "string set"
  pf_order :: "string list"

definition findNode :: "CanvasNode list \<Rightarrow> string \<Rightarrow> CanvasNode option" where
  "findNode nodes nodeId = find (\<lambda>n. node_id n = nodeId) nodes"

text \<open>
  The closure \<open>visit\<close> of \<open>analyzeProgramFlow\<close>: only a node that is found and is not
  an account visits the sources of its incoming connections and is appended, by name.
\<close>

fun visitFlow :: "nat \<Rightarrow> CanvasNode list \<Rightarrow> Connection list \<Rightarrow> string \<Rightarrow> flow_state \<Rightarrow> flow_state js_result" where
  "visitFlow 0 nodes connections nodeId st = None"
| "visitFlow (Suc fuel) nodes connections nodeId st =
     (if nodeId \<in> pf_visiting st then Some (Inr st)
      else if nodeId \<in> pf_visited st then Some (Inr st)
      else
        (case
           (case findNode nodes nodeId of
              None \<Rightarrow> Some (Inr (st\<lparr>pf_visiting := insert nodeId (pf_visiting st)\<rparr>))
            | Some node \<Rightarrow>
                if node_type node \<noteq> ''account'' then
                  (case forEach (\<lambda>conn. visitFlow fuel nodes connections (sourceNodeId conn))
                          (filter (\<lambda>conn. targetNodeId conn = nodeId) connections)
                          (st\<lparr>pf_visiting := insert nodeId (pf_visiting st)\<rparr>) of
                     None \<Rightarrow> None
                   | Some (Inl e) \<Rightarrow> Some (Inl e)
                   | Some (Inr st') \<Rightarrow> Some (Inr (st'\<lparr>pf_order := pf_order st' @ [node_name node]\<rparr>)))
                else Some (Inr (st\<lparr>pf_visiting := insert nodeId (pf_visiting st)\<rparr>)))
         of
           None \<Rightarrow> None
         | Some (Inl e) \<Rightarrow> Some (Inl e)
         | Some (Inr st'') \<Rightarrow>
             Some (Inr (st''\<lparr>pf_visiting := pf_visiting st'' - {nodeId},
                             pf_visited := insert nodeId (pf_visited st'')\<rparr>))))"

definition flowEntryPoints :: "CanvasNode list \<Rightarrow> Connection list \<Rightarrow> string list" where
  "flowEntryPoints nodes connections =
     map node_name
       (filter (\<lambda>node. \<not> (\<exists>conn \<in> set connections. targetNodeId conn = node_id node) \<and>
                        node_type node \<noteq> ''account'') nodes)"

definition flowData :: "CanvasNode list \<Rightarrow> Connection list \<Rightarrow> DataFlowConnection list" where
  "flowData nodes connections =
     concat (map (\<lambda>conn.
       (case (findNode nodes (sourceNodeId conn), findNode nodes (targetNodeId conn)) of
          (Some sourceNode, Some targetNode) \<Rightarrow>
            (case (find (\<lambda>p. port_id p = sourcePortId conn) (outputs sourceNode),
                   find (\<lambda>p. port_id p = targetPortId conn) (inputs targetNode)) of
               (Some sourcePort, Some targetPort) \<Rightarrow>
                 [\<lparr>df_from = node_name sourceNode, df_to = node_name targetNode,
                   dataType = port_type sourcePort, required = True\<rparr>]
             | _ \<Rightarrow> [])
        | _ \<Rightarrow> [])) connections)"

definition analyzeProgramFlow :: "nat \<Rightarrow> CanvasNode list \<Rightarrow> Connection list \<Rightarrow> ProgramFlow js_result" where
  "analyzeProgramFlow fuel nodes connections =
     (case forEach (\<lambda>node. visitFlow fuel nodes connections (node_id node)) nodes
             \<lparr>pf_visited = {}, pf_visiting = {}, pf_order = []\<rparr> of
        None \<Rightarrow> None
      | Some (Inl e) \<Rightarrow> Some (Inl e)
      | Some (Inr st) \<Rightarrow>
          Some (Inr \<lparr>entryPoints = flowEntryPoints nodes connections,
                     flowOrder = pf_order st,
                     dataFlow = flowData nodes connections\<rparr>))"

text \<open>
  The part of \<open>generateInstruction\<close> that can throw: \<open>connectedInstructions\<close> keeps
  every source that is not an account, \<open>undefined\<close> included
  (\<open>undefined?.type !== 'account'\<close>), and then reads \<open>n!.name\<close>.
\<close>

definition connectedInstructions :: "CanvasNode \<Rightarrow> Connection list \<Rightarrow> CanvasNode list \<Rightarrow> js_error + string list" where
  "connectedInstructions node connections allNodes =
     (let incomingConnections = filter (\<lambda>conn. targetNodeId conn = node_id node) connections;
          found = map (\<lambda>conn. findNode allNodes (sourceNodeId conn)) incomingConnections;
          kept = filter (\<lambda>n. case n of None \<Rightarrow> True | Some m \<Rightarrow> node_type m \<noteq> ''account'') found
      in case those kept of
           None \<Rightarrow> Inl TypeError
         | Some ns \<Rightarrow> Inr (map node_name ns))"

text \<open>\<open>Array.prototype.join\<close>.\<close>

fun joinWith :: "string \<Rightarrow> string list \<Rightarrow> string" where
  "joinWith sep [] = []"
| "joinWith sep [x] = x"
| "joinWith sep (x # y # ys) = x @ sep @ joinWith sep (y # ys)"

text \<open>
  \<open>generateIntegrationTests\<close>. Text is its UTF-8 encoding: the two characters of the
  template outside ASCII are written as their bytes.
\<close>

definition generateIntegrationTests :: "CanvasNode list \<Rightarrow> Connection list \<Rightarrow> string" where
  \<open>generateIntegrationTests instructionNodes connections =
     (if length connections = 0 then []
      else
        ''\<newline>  describe("Integration Tests", () => {\<newline>'' @
        ''    it("should execute connected instructions in sequence", async () => {\<newline>'' @
        ''      console.log("'' @ [CHR 0xF0, CHR 0x9F, CHR 0x94, CHR 0x97] @
        '' Testing instruction connections");\<newline>'' @
        ''      \<newline>'' @
        ''      // Execute instructions based on their connections\<newline>'' @
        ''      const executionOrder = ['' @
        joinWith '', '' (map (\<lambda>n. ''"'' @ node_name n @ ''"'') instructionNodes) @
        ''];\<newline>'' @
        ''      \<newline>'' @
        ''      for (const instructionName of executionOrder) {\<newline>'' @
        ''        console.log(`Executing: ${instructionName}`);\<newline>'' @
        ''        // Add specific execution logic here\<newline>'' @
        ''      }\<newline>'' @
        ''      \<newline>'' @
        ''      console.log("'' @ [CHR 0xE2, CHR 0x9C, CHR 0x85] @
        '' All connected instructions executed successfully");\<newline>'' @
        ''    });\<newline>'' @
        ''  });'')\<close>

text \<open>
  \<open>generateAnchorCode\<close>, as far as the properties below read it: the program flow,
  the exception of \<open>generateInstruction\<close>, and the integration tests that
  \<open>generateTests\<close> puts into the test file. The other text (\<open>lib\<close>, the instruction
  files, the test cases, the two manifests) is built from the same arguments by string
  templates and is not part of this record.
\<close>

record GeneratedCode =
  integrationTests :: string
  programFlow :: ProgramFlow

definition generateAnchorCode :: "nat \<Rightarrow> CanvasNode list \<Rightarrow> Connection list \<Rightarrow> GeneratedCode js_result" where
  "generateAnchorCode fuel nodes connections =
     (let instructionNodes = filter (\<lambda>node. node_type node \<noteq> ''account'') nodes in
      case analyzeProgramFlow fuel nodes connections of
        None \<Rightarrow> None
      | Some (Inl e) \<Rightarrow> Some (Inl e)
      | Some (Inr flow) \<Rightarrow>
          if \<exists>node \<in> set instructionNodes. connectedInstructions node connections nodes = Inl TypeError
          then Some (Inl TypeError)
          else Some (Inr \<lparr>integrationTests = generateIntegrationTests instructionNodes connections,
                          programFlow = flow\<rparr>))"

section \<open>Notions used to state and prove the properties of the analyzer\<close>

text \<open>
  \<open>connDeps\<close> is the map that \<open>buildDependencies\<close> returns when it returns: every
  node id with the sources of the connections into it, in order.
  \<open>appears_before xs s t\<close>: \<open>t\<close> occurs in \<open>xs\<close> after the first occurrence of \<open>s\<close>.
  \<open>edges\<close> is the graph of the connections, \<open>dep_rel\<close> the graph of a dependency
  map; a graph is acyclic when its edge relation is (\<open>acyclic\<close>). \<open>closed_deps\<close>
  says that every listed dependency has an entry of its own. \<open>sort_inv\<close>,
  \<open>visit_post\<close> and \<open>ord_inv\<close> are the invariants of \<open>topologicalSort\<close>.
\<close>

definition connDeps :: "CanvasNode list \<Rightarrow> Connection list \<Rightarrow> deps" where
  "connDeps nodes connections =
     (\<lambda>k. if k \<in> node_id ` set nodes
          then Some (map sourceNodeId (filter (\<lambda>c. targetNodeId c = k) connections))
          else None)"

definition closed_deps :: "deps \<Rightarrow> bool" where
  "closed_deps d = (\<forall>k ds. d k = Some ds \<longrightarrow> set ds \<subseteq> dom d)"

definition sort_inv :: "deps \<Rightarrow> sort_state \<Rightarrow> bool" where
  "sort_inv d st =
     (ts_visited st = set (ts_result st) \<and> distinct (ts_result st) \<and>
      ts_visited st \<subseteq> dom d \<and> ts_visited st \<inter> ts_visiting st = {})"

definition visit_post :: "deps \<Rightarrow> string \<Rightarrow> sort_state \<Rightarrow> sort_state \<Rightarrow> bool" where
  "visit_post d n st st' =
     (sort_inv d st' \<and> ts_visiting st' = ts_visiting st \<and> ts_visited st \<subseteq> ts_visited st' \<and>
      (n \<in> ts_visited st' \<or> n \<in> ts_visiting st))"

fun appears_before :: "'a list \<Rightarrow> 'a \<Rightarrow> 'a \<Rightarrow> bool" where
  "appears_before [] s t = False"
| "appears_before (x # xs) s t = (if x = s then t \<in> set xs else appears_before xs s t)"

definition dep_rel :: "deps \<Rightarrow> (string \<times> string) set" where
  "dep_rel d = {(s, t). \<exists>ds. d t = Some ds \<and> s \<in> set ds}"

definition edges :: "Connection list \<Rightarrow> (string \<times> string) set" where
  "edges connections = set (map (\<lambda>c. (sourceNodeId c, targetNodeId c)) connections)"

definition ord_inv :: "deps \<Rightarrow> sort_state \<Rightarrow> bool" where
  "ord_inv d st =
     (\<forall>t \<in> ts_visited st. \<forall>ds. d t = Some ds \<longrightarrow> (\<forall>s \<in> set ds. appears_before (ts_result st) s t))"

text \<open>\<open>reach_inv\<close>: every node visited so far has all its dependencies among the entries.\<close>

definition reach_inv :: "deps \<Rightarrow> sort_state \<Rightarrow> bool" where
  "reach_inv d st =
     (ts_visiting st \<subseteq> dom d \<and> ts_visited st \<subseteq> dom d \<and>
      (\<forall>t \<in> ts_visited st. \<forall>ds. d t = Some ds \<longrightarrow> set ds \<subseteq> dom d))"

text \<open>
  For the comparison of the two traversals: \<open>isAccount\<close> and \<open>isBehavioral\<close> classify
  an id by the node that \<open>nodes.find\<close> returns for it; \<open>behavioralNames\<close> restricts
  a list of ids to the behavioral nodes and maps each to its name; \<open>flow_rel\<close> relates
  the states of the two traversals, and \<open>account_step\<close> describes a visit of
  \<open>topologicalSort\<close> that touches account nodes only.
\<close>

definition isBehavioral :: "CanvasNode list \<Rightarrow> string \<Rightarrow> bool" where
  "isBehavioral nodes i =
     (case findNode nodes i of None \<Rightarrow> False | Some n \<Rightarrow> node_type n \<noteq> ''account'')"

definition isAccount :: "CanvasNode list \<Rightarrow> string \<Rightarrow> bool" where
  "isAccount nodes i =
     (case findNode nodes i of None \<Rightarrow> False | Some n \<Rightarrow> node_type n = ''account'')"

definition behavioralNames :: "CanvasNode list \<Rightarrow> string list \<Rightarrow> string list" where
  "behavioralNames nodes order =
     concat (map (\<lambda>i. case findNode nodes i of
                         None \<Rightarrow> []
                       | Some n \<Rightarrow> if node_type n \<noteq> ''account'' then [node_name n] else []) order)"

definition flow_rel :: "CanvasNode list \<Rightarrow> sort_state \<Rightarrow> flow_state \<Rightarrow> bool" where
  "flow_rel nodes sa sp =
     (pf_order sp = behavioralNames nodes (ts_result sa) \<and>
      (\<forall>i. isBehavioral nodes i \<longrightarrow>
         (i \<in> ts_visited sa \<longleftrightarrow> i \<in> pf_visited sp) \<and>
         (i \<in> ts_visiting sa \<longleftrightarrow> i \<in> pf_visiting sp)))"

definition account_step :: "CanvasNode list \<Rightarrow> sort_state \<Rightarrow> sort_state \<Rightarrow> bool" where
  "account_step nodes sa sa' =
     (ts_visiting sa' = ts_visiting sa \<and>
      behavioralNames nodes (ts_result sa') = behavioralNames nodes (ts_result sa) \<and>
      (\<forall>i. isBehavioral nodes i \<longrightarrow> (i \<in> ts_visited sa' \<longleftrightarrow> i \<in> ts_visited sa)))"

section \<open>Concrete graphs for the examples\<close>

definition mkPort :: "string \<Rightarrow> string \<Rightarrow> Port" where
  "mkPort i t = \<lparr>port_id = i, port_name = i, port_type = t\<rparr>"

definition mkNode :: "string \<Rightarrow> string \<Rightarrow> string \<Rightarrow> CanvasNode" where
  "mkNode i t n =
     \<lparr>node_id = i, node_type = t, node_name = n,
      inputs = [mkPort ''in'' ''data''], outputs = [mkPort ''out'' ''data'']\<rparr>"

definition mkConn :: "string \<Rightarrow> string \<Rightarrow> string \<Rightarrow> Connection" where
  "mkConn i s t =
     \<lparr>conn_id = i, sourceNodeId = s, targetNodeId = t, sourcePortId = ''out'', targetPortId = ''in''\<rparr>"

text \<open>
  \<open>arrayPrototypeKeys\<close>: the property names of \<open>Array.prototype\<close> in ECMAScript 2023,
  the value of the parameter \<open>arrayProto\<close> in the examples.
  Every node made by \<open>mkNode\<close> owns an input port \<open>in\<close> and an output port \<open>out\<close>
  of type \<open>data\<close>, and every connection made by \<open>mkConn\<close> joins an \<open>out\<close> to an
  \<open>in\<close>.
  \<open>chain\<close>: an account, then two instructions in a row, listed in reverse.
  \<open>cycle\<close>: two instructions feeding each other, an isolated node and a connection
  into a node that is gone. \<open>via\<close>: two instructions joined through an account.
  \<open>swapped\<close>: two instructions, the dependent one listed first.
\<close>

definition arrayPrototypeKeys :: "string list" where
  "arrayPrototypeKeys =
     [''at'', ''concat'', ''constructor'', ''copyWithin'', ''entries'', ''every'', ''fill'',
      ''filter'', ''find'', ''findIndex'', ''findLast'', ''findLastIndex'', ''flat'', ''flatMap'',
      ''forEach'', ''includes'', ''indexOf'', ''join'', ''keys'', ''lastIndexOf'', ''map'', ''pop'',
      ''push'', ''reduce'', ''reduceRight'', ''reverse'', ''shift'', ''slice'', ''some'', ''sort'',
      ''splice'', ''toLocaleString'', ''toReversed'', ''toSorted'', ''toSpliced'', ''toString'',
      ''unshift'', ''values'', ''with'']"

definition chain_nodes :: "CanvasNode list" where
  "chain_nodes = [mkNode ''c'' ''token'' ''Swap'', mkNode ''b'' ''token'' ''Mint'', mkNode ''a'' ''account'' ''Vault'']"

definition chain_conns :: "Connection list" where
  "chain_conns = [mkConn ''e1'' ''a'' ''b'', mkConn ''e2'' ''b'' ''c'']"

definition chain_rank :: "string \<Rightarrow> nat" where
  "chain_rank s = (if s = ''a'' then 2 else if s = ''b'' then 1 else 0)"

definition cycle_nodes :: "CanvasNode list" where
  "cycle_nodes = [mkNode ''a'' ''token'' ''Mint'', mkNode ''b'' ''token'' ''Burn'', mkNode ''c'' ''nft'' ''Art'']"

definition cycle_conns :: "Connection list" where
  "cycle_conns = [mkConn ''e1'' ''a'' ''b'', mkConn ''e2'' ''b'' ''a'', mkConn ''e3'' ''a'' ''gone'']"

definition swapped_nodes :: "CanvasNode list" where
  "swapped_nodes = [mkNode ''n2'' ''token'' ''Second'', mkNode ''n1'' ''token'' ''First'']"

definition swapped_conns :: "Connection list" where
  "swapped_conns = [mkConn ''e1'' ''n1'' ''n2'']"

definition via_nodes :: "CanvasNode list" where
  "via_nodes = [mkNode ''n2'' ''token'' ''Second'', mkNode ''a'' ''account'' ''Vault'',
                mkNode ''n1'' ''token'' ''First'']"

definition via_conns :: "Connection list" where
  "via_conns = [mkConn ''e1'' ''n1'' ''a'', mkConn ''e2'' ''a'' ''n2'']"

definition via_rank :: "string \<Rightarrow> nat" where
  "via_rank s = (if s = ''n1'' then 2 else if s = ''a'' then 1 else 0)"

section \<open>Properties of the validator\<close>

lemma find_None_iff_no_match: "find P xs = None \<longleftrightarrow> (\<forall>x \<in> set xs. \<not> P x)"
  by (induction xs) auto

lemma find_Some_if_match: "x \<in> set xs \<Longrightarrow> P x \<Longrightarrow> \<exists>y. find P xs = Some y"
  by (cases "find P xs") (auto simp: find_None_iff_no_match)

lemma compatibilityMap_lookup:
  "compatibilityMap s =
     (if s = ''number'' then Some [''string'', ''boolean'']
      else if s = ''string'' then Some [''number'']
      else if s = ''data'' then Some [''any'']
      else if s = ''control'' then Some [''event'']
      else if s = ''event'' then Some [''control'']
      else None)"
  by (simp add: compatibilityMap_def)

lemma compatibilityMap_inherited:
  "s \<in> set objectPrototypeKeys \<Longrightarrow> compatibilityMap s = None"
  by (auto simp: objectPrototypeKeys_def compatibilityMap_lookup)

lemma any_not_inherited: "''any'' \<notin> set objectPrototypeKeys"
  by (simp add: objectPrototypeKeys_def)

text \<open>
  Where the source type is no name inherited from \<open>Object.prototype\<close>, the type check
  returns, with the values that the table of the specification lists.
\<close>

lemma areTypesCompatible_returns:
  assumes "s \<notin> set objectPrototypeKeys"
  shows "areTypesCompatible s t =
     Inr (s = ''any'' \<or> t = ''any'' \<or> s = t \<or>
          (s, t) \<in> {(''number'', ''string''), (''number'', ''boolean''), (''string'', ''number''),
                    (''data'', ''any''), (''control'', ''event''), (''event'', ''control'')})"
  using assms by (auto simp: areTypesCompatible_def compatibilityMap_lookup)

lemma areTypesCompatible_values:
  "areTypesCompatible ''any'' X = Inr True \<and>
   areTypesCompatible X ''any'' = Inr True \<and>
   areTypesCompatible X X = Inr True \<and>
   areTypesCompatible ''number'' ''string'' = Inr True \<and>
   areTypesCompatible ''number'' ''boolean'' = Inr True \<and>
   areTypesCompatible ''string'' ''number'' = Inr True \<and>
   areTypesCompatible ''string'' ''boolean'' = Inr False \<and>
   areTypesCompatible ''control'' ''event'' = Inr True \<and>
   areTypesCompatible ''event'' ''control'' = Inr True"
  by (simp add: areTypesCompatible_def compatibilityMap_lookup)

lemma areTypesCompatible_throws_iff:
  "areTypesCompatible s t = Inl TypeError \<longleftrightarrow>
     s \<in> set objectPrototypeKeys \<and> t \<noteq> s \<and> t \<noteq> ''any''"
  using any_not_inherited
  by (auto simp: areTypesCompatible_def compatibilityMap_inherited split: option.splits)

text \<open>
  C5. The values that the claim lists hold (\<open>areTypesCompatible_values\<close>), but a pair
  outside the wildcard, equality and the directed map is not always incompatible: when
  the source type is a name that \<open>compatibilityMap\<close> inherits from \<open>Object.prototype\<close>
  (such as \<open>constructor\<close>) and the target type is another type and not \<open>any\<close>, the
  lookup gives a value without \<open>includes\<close> and \<open>areTypesCompatible\<close> throws a
  \<open>TypeError\<close> instead of returning \<open>false\<close>.
\<close>

theorem areTypesCompatible_throws_on_inherited_name:
  assumes "sourceType \<in> set objectPrototypeKeys"
    and "targetType \<noteq> sourceType"
    and "targetType \<noteq> ''any''"
  shows "areTypesCompatible sourceType targetType = Inl TypeError"
  using assms by (simp add: areTypesCompatible_throws_iff)

text \<open>The theorem of C5 on the pair \<open>constructor\<close>, \<open>number\<close>.\<close>

theorem areTypesCompatible_throws_on_inherited_name_witness:
  "areTypesCompatible ''constructor'' ''number'' = Inl TypeError"
  using areTypesCompatible_throws_on_inherited_name [of "''constructor''" "''number''"]
  by (simp add: objectPrototypeKeys_def)

text \<open>
  C8. When the two nodes have the same id, the result is invalid with the
  self-connection reason, whatever the ports and the existing connections are: this
  check comes first, before the type check.
\<close>

theorem validateConnection_self:
  assumes "node_id sourceNode = node_id targetNode"
  shows "validateConnection sourceNode sourcePort targetNode targetPort existingConnections =
           Inr \<lparr>isValid = False, error = Some ''Cannot connect node to itself''\<rparr>"
  using assms by (simp add: validateConnection_def)

theorem validateConnection_self_witness:
  "node_id (mkNode ''n1'' ''token'' ''Mint'') = node_id (mkNode ''n1'' ''token'' ''Mint'') \<and>
   validateConnection (mkNode ''n1'' ''token'' ''Mint'') (mkPort ''out'' ''constructor'')
       (mkNode ''n1'' ''token'' ''Mint'') (mkPort ''in'' ''boolean'')
       [mkConn ''c1'' ''n0'' ''n1'']
     = Inr \<lparr>isValid = False, error = Some ''Cannot connect node to itself''\<rparr>"
  using validateConnection_self [of "mkNode ''n1'' ''token'' ''Mint''" "mkNode ''n1'' ''token'' ''Mint''"
      "mkPort ''out'' ''constructor''" "mkPort ''in'' ''boolean''" "[mkConn ''c1'' ''n0'' ''n1'']"]
  by simp

text \<open>
  C7. A proposal between two different nodes, with compatible port types, that is not
  an exact duplicate of an existing connection, is rejected with the reason
  "Port already has an input connection" as soon as an existing connection has the
  same target node and target port.
\<close>

theorem validateConnection_fan_in:
  assumes "node_id sourceNode \<noteq> node_id targetNode"
    and "areTypesCompatible (port_type sourcePort) (port_type targetPort) = Inr True"
    and "\<forall>conn \<in> set existingConnections.
           \<not> (sourceNodeId conn = node_id sourceNode \<and> targetNodeId conn = node_id targetNode \<and>
              sourcePortId conn = port_id sourcePort \<and> targetPortId conn = port_id targetPort)"
    and "\<exists>conn \<in> set existingConnections.
           targetNodeId conn = node_id targetNode \<and> targetPortId conn = port_id targetPort"
  shows "validateConnection sourceNode sourcePort targetNode targetPort existingConnections =
           Inr \<lparr>isValid = False, error = Some ''Port already has an input connection''\<rparr>"
proof -
  have dup: "find (sameConnection sourceNode sourcePort targetNode targetPort) existingConnections = None"
    using assms(3) by (simp add: find_None_iff_no_match sameConnection_def)
  obtain c where "find (sameInput targetNode targetPort) existingConnections = Some c"
    using assms(4) find_Some_if_match [of _ existingConnections "sameInput targetNode targetPort"]
    by (auto simp: sameInput_def)
  with dup assms(1,2) show ?thesis
    by (simp add: validateConnection_def)
qed

theorem validateConnection_fan_in_witness:
  "validateConnection (mkNode ''n2'' ''token'' ''Burn'') (mkPort ''out'' ''data'')
       (mkNode ''n1'' ''token'' ''Mint'') (mkPort ''in'' ''data'')
       [mkConn ''c1'' ''n0'' ''n1'']
     = Inr \<lparr>isValid = False, error = Some ''Port already has an input connection''\<rparr>"
  using validateConnection_fan_in [of "mkNode ''n2'' ''token'' ''Burn''" "mkNode ''n1'' ''token'' ''Mint''"
      "mkPort ''out'' ''data''" "mkPort ''in'' ''data''" "[mkConn ''c1'' ''n0'' ''n1'']"]
  by (simp add: mkNode_def mkPort_def mkConn_def areTypesCompatible_def)

text \<open>
  C4, as the claim states it, fails: a proposal whose ports belong to neither node is
  accepted. Here the ports \<open>p8\<close> and \<open>p9\<close> are ports of neither node.
\<close>

theorem validateConnection_ownership_counterexample:
  "mkPort ''p8'' ''data'' \<notin> set (outputs (mkNode ''n1'' ''instruction'' ''First'')) \<and>
   mkPort ''p9'' ''data'' \<notin> set (inputs (mkNode ''n2'' ''instruction'' ''Second'')) \<and>
   validateConnection (mkNode ''n1'' ''instruction'' ''First'') (mkPort ''p8'' ''data'')
       (mkNode ''n2'' ''instruction'' ''Second'') (mkPort ''p9'' ''data'') []
     = Inr \<lparr>isValid = True, error = None\<rparr>"
  by (simp add: validateConnection_def mkNode_def mkPort_def areTypesCompatible_def)

text \<open>
  C4, amended. Whether or not the ports belong to the nodes, and provided the type
  check can return (the port types are equal, one of them is \<open>any\<close>, or the source
  type is no name inherited from \<open>Object.prototype\<close>), \<open>validateConnection\<close> returns,
  and its result is invalid exactly when one of the four checks rejects the proposal:
  equal node ids, incompatible port types, an existing connection with the same four
  ids, or an existing connection into the same target node and port. The lists
  \<open>inputs\<close> and \<open>outputs\<close> of the two nodes are not read.
\<close>

theorem validateConnection_invalid_iff:
  assumes "port_type sourcePort = port_type targetPort \<or> port_type sourcePort = ''any'' \<or>
           port_type targetPort = ''any'' \<or> port_type sourcePort \<notin> set objectPrototypeKeys"
  shows "\<exists>r. validateConnection sourceNode sourcePort targetNode targetPort existingConnections = Inr r \<and>
           (isValid r = False \<longleftrightarrow>
              node_id sourceNode = node_id targetNode \<or>
              areTypesCompatible (port_type sourcePort) (port_type targetPort) = Inr False \<or>
              (\<exists>conn \<in> set existingConnections.
                 sourceNodeId conn = node_id sourceNode \<and> targetNodeId conn = node_id targetNode \<and>
                 sourcePortId conn = port_id sourcePort \<and> targetPortId conn = port_id targetPort) \<or>
              (\<exists>conn \<in> set existingConnections.
                 targetNodeId conn = node_id targetNode \<and> targetPortId conn = port_id targetPort))"
proof -
  have a: "find (sameConnection sourceNode sourcePort targetNode targetPort) existingConnections = None
      \<longleftrightarrow> \<not> (\<exists>conn \<in> set existingConnections.
        sourceNodeId conn = node_id sourceNode \<and> targetNodeId conn = node_id targetNode \<and>
        sourcePortId conn = port_id sourcePort \<and> targetPortId conn = port_id targetPort)"
    by (simp add: find_None_iff_no_match sameConnection_def)
  have b: "find (sameInput targetNode targetPort) existingConnections = None
      \<longleftrightarrow> \<not> (\<exists>conn \<in> set existingConnections.
        targetNodeId conn = node_id targetNode \<and> targetPortId conn = port_id targetPort)"
    by (simp add: find_None_iff_no_match sameInput_def)
  have "areTypesCompatible (port_type sourcePort) (port_type targetPort) \<noteq> Inl TypeError"
    using assms any_not_inherited by (auto simp: areTypesCompatible_throws_iff)
  then obtain c where c: "areTypesCompatible (port_type sourcePort) (port_type targetPort) = Inr c"
    by (cases "areTypesCompatible (port_type sourcePort) (port_type targetPort)")
       (auto intro: js_error.exhaust)
  show ?thesis
    unfolding validateConnection_def
    using a b c by (auto split: option.splits)
qed

theorem validateConnection_invalid_iff_witness:
  "validateConnection (mkNode ''n2'' ''token'' ''Burn'') (mkPort ''out'' ''data'')
       (mkNode ''n1'' ''token'' ''Mint'') (mkPort ''in'' ''data'')
       [mkConn ''c1'' ''n0'' ''n1'']
     = Inr \<lparr>isValid = False, error = Some ''Port already has an input connection''\<rparr>"
proof -
  from validateConnection_invalid_iff [of "mkPort ''out'' ''data''" "mkPort ''in'' ''data''"
      "mkNode ''n2'' ''token'' ''Burn''" "mkNode ''n1'' ''token'' ''Mint''" "[mkConn ''c1'' ''n0'' ''n1'']"]
  obtain r where "validateConnection (mkNode ''n2'' ''token'' ''Burn'') (mkPort ''out'' ''data'')
       (mkNode ''n1'' ''token'' ''Mint'') (mkPort ''in'' ''data'') [mkConn ''c1'' ''n0'' ''n1''] = Inr r"
    by (auto simp: mkPort_def)
  then show ?thesis
    by (simp add: validateConnection_def mkNode_def mkPort_def mkConn_def areTypesCompatible_def
        sameConnection_def sameInput_def)
qed

section \<open>Properties of the analyzer\<close>

lemma forEach_total:
  assumes "P [] s"
    and "\<And>pre x post t. xs = pre @ x # post \<Longrightarrow> P pre t \<Longrightarrow>
           \<exists>t'. f x t = Some (Inr t') \<and> P (pre @ [x]) t'"
  shows "\<exists>s'. forEach f xs s = Some (Inr s') \<and> P xs s'"
  using assms
proof (induction xs arbitrary: s P)
  case Nil
  then show ?case by simp
next
  case (Cons x xs)
  from Cons.prems(2) [of "[]" x xs s] Cons.prems(1)
  obtain t where t: "f x s = Some (Inr t)" "P [x] t" by auto
  have "\<exists>s'. forEach f xs t = Some (Inr s') \<and> (\<lambda>pre. P (x # pre)) xs s'"
  proof (rule Cons.IH)
    show "P [x] t" by (rule t)
  next
    fix pre y post u
    assume "xs = pre @ y # post" "P (x # pre) u"
    then show "\<exists>t'. f y u = Some (Inr t') \<and> P (x # pre @ [y]) t'"
      using Cons.prems(2) [of "x # pre" y post u] by simp
  qed
  with t show ?case by simp
qed

lemma forEach_partial:
  assumes "forEach f xs s = Some (Inr s')"
    and "P [] s"
    and "\<And>pre x post t t'. xs = pre @ x # post \<Longrightarrow> P pre t \<Longrightarrow> f x t = Some (Inr t') \<Longrightarrow>
           P (pre @ [x]) t'"
  shows "P xs s'"
  using assms
proof (induction xs arbitrary: s P)
  case Nil
  then show ?case by simp
next
  case (Cons x xs)
  from Cons.prems(1) obtain t where t: "f x s = Some (Inr t)" "forEach f xs t = Some (Inr s')"
    by (auto split: option.splits sum.splits)
  have "(\<lambda>pre. P (x # pre)) xs s'"
  proof (rule Cons.IH [OF t(2)])
    show "P [x] t" using Cons.prems(3) [of "[]" x xs s t] Cons.prems(2) t(1) by simp
  next
    fix pre y post u u'
    assume "xs = pre @ y # post" "P (x # pre) u" "f y u = Some (Inr u')"
    then show "P (x # pre @ [y]) u'"
      using Cons.prems(3) [of "x # pre" y post u u'] by simp
  qed
  then show ?case .
qed

lemma fold_init_apply:
  "fold (\<lambda>node d. d(node_id node \<mapsto> [])) nodes m k =
     (if k \<in> node_id ` set nodes then Some [] else m k)"
  by (induction nodes arbitrary: m) auto

lemma initDependencies_apply:
  "initDependencies nodes k = (if k \<in> node_id ` set nodes then Some [] else None)"
  by (simp add: initDependencies_def fold_init_apply)

lemma connDeps_apply:
  "connDeps nodes conns k =
     (if k \<in> node_id ` set nodes
      then Some (map sourceNodeId (filter (\<lambda>c. targetNodeId c = k) conns))
      else None)"
  by (simp add: connDeps_def)

lemma dom_connDeps: "dom (connDeps nodes conns) = node_id ` set nodes"
  by (auto simp: connDeps_apply dom_def)

lemma closed_connDeps:
  assumes "\<forall>c \<in> set conns. sourceNodeId c \<in> node_id ` set nodes"
  shows "closed_deps (connDeps nodes conns)"
  unfolding closed_deps_def dom_connDeps
  using assms by (auto simp: connDeps_apply split: if_splits)

lemma addDependency_dom: "addDependency ap c d = Inr d' \<Longrightarrow> dom d' = dom d"
  by (auto simp: addDependency_def split: option.splits if_splits)

lemma addDependency_apply:
  "addDependency ap c d = Inr d' \<Longrightarrow>
     d' k = (case d k of
               None \<Rightarrow> None
             | Some ds \<Rightarrow> Some (ds @ (if targetNodeId c = k then [sourceNodeId c] else [])))"
  by (auto simp: addDependency_def split: option.splits if_splits)

lemma addDependencies_not_None:
  "forEach (\<lambda>connection d. Some (addDependency ap connection d)) conns d \<noteq> None"
  by (induction conns arbitrary: d) (auto split: sum.splits)

lemma addDependencies_apply:
  "forEach (\<lambda>connection d. Some (addDependency ap connection d)) conns d = Some (Inr d') \<Longrightarrow>
     d' k = (case d k of
               None \<Rightarrow> None
             | Some ds \<Rightarrow> Some (ds @ map sourceNodeId (filter (\<lambda>c. targetNodeId c = k) conns)))"
proof (induction conns arbitrary: d)
  case Nil
  then show ?case by (simp split: option.splits)
next
  case (Cons c conns)
  from Cons.prems obtain d1 where d1: "addDependency ap c d = Inr d1"
    and rest: "forEach (\<lambda>connection d. Some (addDependency ap connection d)) conns d1 = Some (Inr d')"
    by (auto split: sum.splits)
  show ?case
    using Cons.IH [OF rest] addDependency_apply [OF d1, of k]
    by (auto split: option.splits)
qed

text \<open>When \<open>buildDependencies\<close> returns, it returns \<open>connDeps\<close>.\<close>

lemma buildDependencies_result:
  assumes "buildDependencies ap nodes conns = Some (Inr d)"
  shows "d = connDeps nodes conns"
proof
  fix k
  show "d k = connDeps nodes conns k"
    using addDependencies_apply [OF assms [unfolded buildDependencies_def], of k]
    by (simp add: initDependencies_apply connDeps_apply)
qed

lemma arrayIndex_inherited: "k \<in> set objectPrototypeKeys \<Longrightarrow> arrayIndex k = None"
  by (auto simp: objectPrototypeKeys_def arrayIndex_def isDigit_def)

lemma length_not_inherited: "''length'' \<notin> set objectPrototypeKeys"
  by (simp add: objectPrototypeKeys_def)

lemma inheritedTruthy_inherited:
  assumes "k \<in> set objectPrototypeKeys"
  shows "inheritedTruthy ap d k"
  using assms length_not_inherited
  by (auto simp: inheritedTruthy_def arrayIndex_inherited split: option.splits)

lemma inheritedTruthy_plain:
  assumes "d ''__proto__'' = None" "k \<notin> set objectPrototypeKeys"
  shows "\<not> inheritedTruthy ap d k"
  using assms by (simp add: inheritedTruthy_def)

text \<open>
  \<open>buildDependencies\<close> returns when every target is a node id or, no node having the
  id \<open>__proto__\<close>, is none of the names inherited from \<open>Object.prototype\<close>.
\<close>

lemma buildDependencies_returns:
  assumes "\<forall>c \<in> set conns. targetNodeId c \<in> node_id ` set nodes \<or>
             (targetNodeId c \<notin> set objectPrototypeKeys \<and> ''__proto__'' \<notin> node_id ` set nodes)"
  shows "buildDependencies ap nodes conns = Some (Inr (connDeps nodes conns))"
proof -
  let ?d0 = "initDependencies nodes"
  let ?P = "\<lambda>(pre::Connection list) (d::deps). dom d = node_id ` set nodes"
  have "\<exists>d'. forEach (\<lambda>connection d. Some (addDependency ap connection d)) conns ?d0 = Some (Inr d') \<and>
          ?P conns d'"
  proof (rule forEach_total)
    show "?P [] ?d0" by (auto simp: initDependencies_apply dom_def)
  next
    fix pre x post and t :: deps
    assume xs: "conns = pre @ x # post" and P: "?P pre t"
    have x: "targetNodeId x \<in> node_id ` set nodes \<or>
             (targetNodeId x \<notin> set objectPrototypeKeys \<and> ''__proto__'' \<notin> node_id ` set nodes)"
      using assms xs by simp
    have "\<exists>t'. addDependency ap x t = Inr t'"
    proof (cases "t (targetNodeId x)")
      case (Some ds)
      then show ?thesis by (simp add: addDependency_def)
    next
      case None
      then have "targetNodeId x \<notin> node_id ` set nodes" using P by auto
      with x have "targetNodeId x \<notin> set objectPrototypeKeys" "t ''__proto__'' = None"
        using P by auto
      then have "\<not> inheritedTruthy ap t (targetNodeId x)" using inheritedTruthy_plain by simp
      with None show ?thesis by (simp add: addDependency_def)
    qed
    then obtain t' where t': "addDependency ap x t = Inr t'" by blast
    then show "\<exists>t'. Some (addDependency ap x t) = Some (Inr t') \<and> ?P (pre @ [x]) t'"
      using P addDependency_dom [OF t'] by simp
  qed
  then obtain d' where "buildDependencies ap nodes conns = Some (Inr d')"
    by (auto simp: buildDependencies_def)
  then show ?thesis using buildDependencies_result by blast
qed

text \<open>
  \<open>buildDependencies\<close> throws when some target is no node id and is a name inherited
  from \<open>Object.prototype\<close>.
\<close>

lemma addDependencies_throw:
  assumes "c \<in> set conns" "targetNodeId c \<notin> dom d" "targetNodeId c \<in> set objectPrototypeKeys"
  shows "forEach (\<lambda>connection d. Some (addDependency ap connection d)) conns d = Some (Inl TypeError)"
  using assms
proof (induction conns arbitrary: d)
  case Nil
  then show ?case by simp
next
  case (Cons x xs)
  show ?case
  proof (cases "addDependency ap x d")
    case (Inl e)
    then show ?thesis by (cases e) simp
  next
    case (Inr d1)
    have "x \<noteq> c"
    proof
      assume "x = c"
      then have "addDependency ap x d = Inl TypeError"
        using Cons.prems(2,3) inheritedTruthy_inherited [of "targetNodeId c" ap d]
        by (auto simp: addDependency_def split: option.splits)
      with Inr show False by simp
    qed
    then have "c \<in> set xs" using Cons.prems(1) by simp
    moreover have "targetNodeId c \<notin> dom d1" using Cons.prems(2) addDependency_dom [OF Inr] by simp
    ultimately have "forEach (\<lambda>connection d. Some (addDependency ap connection d)) xs d1 =
        Some (Inl TypeError)"
      using Cons.IH Cons.prems(3) by blast
    with Inr show ?thesis by simp
  qed
qed

lemma buildDependencies_throws:
  assumes "c \<in> set conns" "targetNodeId c \<notin> node_id ` set nodes"
    "targetNodeId c \<in> set objectPrototypeKeys"
  shows "buildDependencies ap nodes conns = Some (Inl TypeError)"
proof -
  have "targetNodeId c \<notin> dom (initDependencies nodes)"
    using assms(2) by (auto simp: initDependencies_apply dom_def split: if_splits)
  from addDependencies_throw [OF assms(1) this assms(3)] show ?thesis
    by (simp add: buildDependencies_def)
qed

lemma card_diff_insert_less:
  assumes "finite A" "n \<in> A" "n \<notin> V"
  shows "card (A - insert n V) < card (A - V)"
proof -
  have "A - insert n V \<subset> A - V" using assms by auto
  then show ?thesis using assms(1) by (simp add: psubset_card_mono)
qed

lemma visit_total:
  assumes fin: "finite (dom d)" and cl: "closed_deps d"
  shows "n \<in> dom d \<Longrightarrow> card (dom d - ts_visiting st) < k \<Longrightarrow> sort_inv d st \<Longrightarrow>
           \<exists>st'. visit k d n st = Some (Inr st') \<and> visit_post d n st st'"
proof (induction k arbitrary: n st)
  case 0
  then show ?case by simp
next
  case (Suc k)
  show ?case
  proof (cases "n \<in> ts_visiting st \<or> n \<in> ts_visited st")
    case True
    then show ?thesis using Suc.prems(3) by (auto simp: visit_post_def)
  next
    case False
    then have nV: "n \<notin> ts_visiting st" and nD: "n \<notin> ts_visited st" by auto
    from Suc.prems(1) obtain ds where ds: "d n = Some ds" by auto
    with cl have sub: "set ds \<subseteq> dom d" by (auto simp: closed_deps_def)
    let ?st1 = "st\<lparr>ts_visiting := insert n (ts_visiting st)\<rparr>"
    let ?P = "\<lambda>(pre::string list) s. sort_inv d s \<and> ts_visiting s = insert n (ts_visiting st) \<and>
                 ts_visited st \<subseteq> ts_visited s"
    have bound: "card (dom d - insert n (ts_visiting st)) < k"
      using card_diff_insert_less [OF fin Suc.prems(1) nV] Suc.prems(2) by simp
    have "\<exists>s'. forEach (visit k d) ds ?st1 = Some (Inr s') \<and> ?P ds s'"
    proof (rule forEach_total)
      show "?P [] ?st1" using Suc.prems(3) nD by (auto simp: sort_inv_def)
    next
      fix pre x post t
      assume xs: "ds = pre @ x # post" and P: "?P pre t"
      then have "x \<in> dom d" using sub by auto
      moreover have "card (dom d - ts_visiting t) < k" using P bound by simp
      ultimately obtain t' where "visit k d x t = Some (Inr t')" "visit_post d x t t'"
        using Suc.IH [of x t] P by blast
      then show "\<exists>t'. visit k d x t = Some (Inr t') \<and> ?P (pre @ [x]) t'"
        using P by (auto simp: visit_post_def)
    qed
    then obtain s' where s': "forEach (visit k d) ds ?st1 = Some (Inr s')" "?P ds s'" by blast
    have "n \<notin> ts_visited s'" using s'(2) by (auto simp: sort_inv_def)
    then have "visit_post d n st
        (s'\<lparr>ts_visiting := ts_visiting s' - {n}, ts_visited := insert n (ts_visited s'),
            ts_result := ts_result s' @ [n]\<rparr>)"
      using s'(2) nV Suc.prems(1) by (auto simp: visit_post_def sort_inv_def)
    then show ?thesis using nV nD ds s'(1) by simp
  qed
qed

lemma appears_before_append: "appears_before xs s t \<Longrightarrow> appears_before (xs @ ys) s t"
  by (induction xs) auto

lemma appears_before_snoc: "s \<in> set xs \<Longrightarrow> appears_before (xs @ [t]) s t"
  by (induction xs) auto

lemma visit_result:
  assumes "finite (dom d)" "closed_deps d" "n \<in> dom d" "card (dom d - ts_visiting st) < k"
    "sort_inv d st" "visit k d n st = Some (Inr st')"
  shows "visit_post d n st st'"
  using visit_total [OF assms(1-5)] assms(6) by auto

lemma visit_order:
  assumes fin: "finite (dom d)" and cl: "closed_deps d" and ac: "acyclic (dep_rel d)"
  shows "n \<in> dom d \<Longrightarrow> card (dom d - ts_visiting st) < k \<Longrightarrow> sort_inv d st \<Longrightarrow> ord_inv d st \<Longrightarrow>
         \<forall>v \<in> ts_visiting st. (n, v) \<in> (dep_rel d)\<^sup>+ \<Longrightarrow>
         visit k d n st = Some (Inr st') \<Longrightarrow> ord_inv d st' \<and> n \<in> ts_visited st'"
proof (induction k arbitrary: n st st')
  case 0
  then show ?case by simp
next
  case (Suc k)
  have nV: "n \<notin> ts_visiting st"
  proof
    assume "n \<in> ts_visiting st"
    then have "(n, n) \<in> (dep_rel d)\<^sup>+" using Suc.prems(5) by blast
    with ac show False by (simp add: acyclic_def)
  qed
  show ?case
  proof (cases "n \<in> ts_visited st")
    case True
    then show ?thesis using Suc.prems(4,6) nV by simp
  next
    case nD: False
    from Suc.prems(1) obtain ds where ds: "d n = Some ds" by auto
    with cl have sub: "set ds \<subseteq> dom d" by (auto simp: closed_deps_def)
    let ?st1 = "st\<lparr>ts_visiting := insert n (ts_visiting st)\<rparr>"
    from Suc.prems(6) nV nD ds obtain s' where
      s': "forEach (visit k d) ds ?st1 = Some (Inr s')" and
      st': "st' = s'\<lparr>ts_visiting := ts_visiting s' - {n}, ts_visited := insert n (ts_visited s'),
                     ts_result := ts_result s' @ [n]\<rparr>"
      by (auto split: option.splits sum.splits)
    let ?P = "\<lambda>pre s. sort_inv d s \<and> ts_visiting s = insert n (ts_visiting st) \<and>
                 ord_inv d s \<and> set pre \<subseteq> ts_visited s"
    have bound: "card (dom d - insert n (ts_visiting st)) < k"
      using card_diff_insert_less [OF fin Suc.prems(1) nV] Suc.prems(2) by simp
    have "?P ds s'"
    proof (rule forEach_partial [OF s'])
      show "?P [] ?st1" using Suc.prems(3,4) nD by (auto simp: sort_inv_def ord_inv_def)
    next
      fix pre x post t t'
      assume xs: "ds = pre @ x # post" and P: "?P pre t" and v: "visit k d x t = Some (Inr t')"
      have xd: "x \<in> dom d" using xs sub by auto
      have b: "card (dom d - ts_visiting t) < k" using P bound by simp
      have post: "visit_post d x t t'"
        using visit_result [OF fin cl xd b _ v] P by simp
      have xn: "(x, n) \<in> dep_rel d" using xs ds by (auto simp: dep_rel_def)
      have path: "\<forall>v \<in> ts_visiting t. (x, v) \<in> (dep_rel d)\<^sup>+"
      proof
        fix v assume "v \<in> ts_visiting t"
        then have "v = n \<or> v \<in> ts_visiting st" using P by auto
        then show "(x, v) \<in> (dep_rel d)\<^sup>+"
        proof
          assume "v = n" then show ?thesis using xn by auto
        next
          assume "v \<in> ts_visiting st"
          then have "(n, v) \<in> (dep_rel d)\<^sup>+" using Suc.prems(5) by blast
          with xn show ?thesis by (rule trancl_into_trancl2)
        qed
      qed
      have "ord_inv d t' \<and> x \<in> ts_visited t'"
        using Suc.IH [OF xd b _ _ path v] P by simp
      then show "?P (pre @ [x]) t'"
        using post P by (auto simp: visit_post_def)
    qed
    then have P: "sort_inv d s'" "ord_inv d s'" "set ds \<subseteq> ts_visited s'" by auto
    have "ord_inv d st'"
      unfolding ord_inv_def
    proof (intro ballI allI impI)
      fix t es s
      assume t: "t \<in> ts_visited st'" and es: "d t = Some es" and s: "s \<in> set es"
      show "appears_before (ts_result st') s t"
      proof (cases "t = n")
        case True
        then have "s \<in> set (ts_result s')" using es ds s P(1,3) by (auto simp: sort_inv_def)
        then show ?thesis using True st' by (simp add: appears_before_snoc)
      next
        case False
        then have "t \<in> ts_visited s'" using t st' by simp
        then have "appears_before (ts_result s') s t" using P(2) es s by (auto simp: ord_inv_def)
        then show ?thesis using st' by (simp add: appears_before_append)
      qed
    qed
    then show ?thesis using st' by simp
  qed
qed

lemma visitCycle_total:
  assumes fin: "finite (dom d)" and cl: "closed_deps d"
  shows "n \<in> dom d \<Longrightarrow> card (dom d - dc_visiting st) < k \<Longrightarrow>
           \<exists>st'. visitCycle k d n path st = Some (Inr st') \<and> dc_visiting st' = dc_visiting st"
proof (induction k arbitrary: n st path)
  case 0
  then show ?case by simp
next
  case (Suc k)
  show ?case
  proof (cases "n \<in> dc_visiting st \<or> n \<in> dc_visited st")
    case True
    then show ?thesis by auto
  next
    case False
    then have nV: "n \<notin> dc_visiting st" and nD: "n \<notin> dc_visited st" by auto
    from Suc.prems(1) obtain ds where ds: "d n = Some ds" by auto
    with cl have sub: "set ds \<subseteq> dom d" by (auto simp: closed_deps_def)
    let ?st1 = "st\<lparr>dc_visiting := insert n (dc_visiting st)\<rparr>"
    let ?P = "\<lambda>(pre::string list) (s::cycle_state). dc_visiting s = insert n (dc_visiting st)"
    have bound: "card (dom d - insert n (dc_visiting st)) < k"
      using card_diff_insert_less [OF fin Suc.prems(1) nV] Suc.prems(2) by simp
    have "\<exists>s'. forEach (\<lambda>dep. visitCycle k d dep (path @ [n])) ds ?st1 = Some (Inr s') \<and> ?P ds s'"
    proof (rule forEach_total)
      show "?P [] ?st1" by simp
    next
      fix pre x post t
      assume xs: "ds = pre @ x # post" and P: "?P pre t"
      then have "x \<in> dom d" using sub by auto
      moreover have "card (dom d - dc_visiting t) < k" using P bound by simp
      ultimately show "\<exists>t'. visitCycle k d x (path @ [n]) t = Some (Inr t') \<and> ?P (pre @ [x]) t'"
        using Suc.IH [of x t "path @ [n]"] P by auto
    qed
    then obtain s' where "forEach (\<lambda>dep. visitCycle k d dep (path @ [n])) ds ?st1 = Some (Inr s')"
      "?P ds s'" by blast
    then show ?thesis using nV nD ds by auto
  qed
qed

lemma detectCycles_total:
  assumes "finite (dom d)" "closed_deps d" "set ids \<subseteq> dom d" "card (dom d) < k"
  shows "\<exists>cs. detectCycles k ids d = Some (Inr cs)"
proof -
  let ?P = "\<lambda>(pre::string list) (s::cycle_state). dc_visiting s = {}"
  have "\<exists>s'. forEach (\<lambda>nodeId. visitCycle k d nodeId []) ids
            \<lparr>dc_cycles = [], dc_visited = {}, dc_visiting = {}\<rparr> = Some (Inr s') \<and> ?P ids s'"
  proof (rule forEach_total)
    show "?P [] \<lparr>dc_cycles = [], dc_visited = {}, dc_visiting = {}\<rparr>" by simp
  next
    fix pre x post t
    assume "ids = pre @ x # post" "?P pre t"
    then show "\<exists>t'. visitCycle k d x [] t = Some (Inr t') \<and> ?P (pre @ [x]) t'"
      using visitCycle_total [OF assms(1,2), of x t k "[]"] assms(3,4) by auto
  qed
  then show ?thesis by (auto simp: detectCycles_def)
qed

lemma topologicalSort_total:
  assumes fin: "finite (dom d)" and cl: "closed_deps d" and ids: "set ids = dom d"
    and k: "card (dom d) < k"
  shows "\<exists>order. topologicalSort k ids d = Some (Inr order) \<and> distinct order \<and> set order = set ids \<and>
           (acyclic (dep_rel d) \<longrightarrow>
              (\<forall>t ds. d t = Some ds \<longrightarrow> (\<forall>s \<in> set ds. appears_before order s t)))"
proof -
  let ?s0 = "\<lparr>ts_visited = {}, ts_visiting = {}, ts_result = []\<rparr>"
  let ?P = "\<lambda>pre s. sort_inv d s \<and> ts_visiting s = {} \<and> set pre \<subseteq> ts_visited s \<and>
              (acyclic (dep_rel d) \<longrightarrow> ord_inv d s)"
  have "\<exists>s'. forEach (visit k d) ids ?s0 = Some (Inr s') \<and> ?P ids s'"
  proof (rule forEach_total)
    show "?P [] ?s0" by (simp add: sort_inv_def ord_inv_def)
  next
    fix pre x post t
    assume xs: "ids = pre @ x # post" and P: "?P pre t"
    have xd: "x \<in> dom d" using xs ids by auto
    have b: "card (dom d - ts_visiting t) < k" using P k by simp
    obtain t' where v: "visit k d x t = Some (Inr t')" and post: "visit_post d x t t'"
      using visit_total [OF fin cl xd b] P by blast
    have "acyclic (dep_rel d) \<longrightarrow> ord_inv d t'"
    proof
      assume ac: "acyclic (dep_rel d)"
      show "ord_inv d t'"
        using visit_order [OF fin cl ac xd b _ _ _ v] P ac by simp
    qed
    then show "\<exists>t'. visit k d x t = Some (Inr t') \<and> ?P (pre @ [x]) t'"
      using v post P by (auto simp: visit_post_def)
  qed
  then obtain s' where s': "forEach (visit k d) ids ?s0 = Some (Inr s')" and P: "?P ids s'"
    by blast
  have set_eq: "set (ts_result s') = set ids"
    using P ids by (auto simp: sort_inv_def)
  have "acyclic (dep_rel d) \<longrightarrow> (\<forall>t ds. d t = Some ds \<longrightarrow> (\<forall>s \<in> set ds. appears_before (ts_result s') s t))"
  proof (intro impI allI ballI)
    fix t ds s
    assume "acyclic (dep_rel d)" "d t = Some ds" "s \<in> set ds"
    moreover have "t \<in> ts_visited s'" using \<open>d t = Some ds\<close> P ids by auto
    ultimately show "appears_before (ts_result s') s t"
      using P by (auto simp: ord_inv_def)
  qed
  then show ?thesis
    using s' P set_eq by (simp add: topologicalSort_def sort_inv_def)
qed

lemma card_dom_connDeps: "card (dom (connDeps nodes conns)) \<le> length nodes"
proof -
  have "card (node_id ` set nodes) \<le> card (set nodes)" by (rule card_image_le) simp
  also have "\<dots> \<le> length nodes" by (rule card_length)
  finally show ?thesis by (simp add: dom_connDeps)
qed

lemma dep_rel_connDeps: "dep_rel (connDeps nodes conns) \<subseteq> edges conns"
  by (auto simp: dep_rel_def edges_def connDeps_apply split: if_splits)

lemma analyzeFlow_total:
  assumes src: "\<forall>c \<in> set connections. sourceNodeId c \<in> node_id ` set nodes"
    and tgt: "\<forall>c \<in> set connections. targetNodeId c \<in> node_id ` set nodes \<or>
             (targetNodeId c \<notin> set objectPrototypeKeys \<and> ''__proto__'' \<notin> node_id ` set nodes)"
    and fuel: "length nodes < fuel"
  shows "\<exists>order cs. analyzeFlow fuel ap nodes connections =
            Some (Inr \<lparr>executionOrder = order, dependencies = connDeps nodes connections,
                       cycles = cs, isolatedNodes = findIsolatedNodes nodes connections\<rparr>) \<and>
           distinct order \<and> set order = node_id ` set nodes \<and>
           (acyclic (edges connections) \<longrightarrow>
              (\<forall>c \<in> set connections. targetNodeId c \<in> node_id ` set nodes \<longrightarrow>
                 appears_before order (sourceNodeId c) (targetNodeId c)))"
proof -
  let ?d = "connDeps nodes connections"
  let ?ids = "map node_id nodes"
  have fin: "finite (dom ?d)" by (simp add: dom_connDeps)
  have cl: "closed_deps ?d" using src by (rule closed_connDeps)
  have ids: "set ?ids = dom ?d" by (simp add: dom_connDeps)
  have k: "card (dom ?d) < fuel" using card_dom_connDeps [of nodes connections] fuel by simp
  obtain order where o: "topologicalSort fuel ?ids ?d = Some (Inr order)" "distinct order"
      "set order = set ?ids"
      "acyclic (dep_rel ?d) \<longrightarrow> (\<forall>t ds. ?d t = Some ds \<longrightarrow> (\<forall>s \<in> set ds. appears_before order s t))"
    using topologicalSort_total [OF fin cl ids k] by blast
  obtain cs where c: "detectCycles fuel ?ids ?d = Some (Inr cs)"
    using detectCycles_total [OF fin cl _ k, of ?ids] ids by auto
  have "acyclic (edges connections) \<longrightarrow>
          (\<forall>c \<in> set connections. targetNodeId c \<in> node_id ` set nodes \<longrightarrow>
             appears_before order (sourceNodeId c) (targetNodeId c))"
  proof (intro impI ballI)
    fix c
    assume ac: "acyclic (edges connections)" and c: "c \<in> set connections"
      and t: "targetNodeId c \<in> node_id ` set nodes"
    have "acyclic (dep_rel ?d)" using ac dep_rel_connDeps by (rule acyclic_subset)
    moreover have "?d (targetNodeId c) =
        Some (map sourceNodeId (filter (\<lambda>c'. targetNodeId c' = targetNodeId c) connections))"
      using t by (simp add: connDeps_apply)
    moreover have "sourceNodeId c \<in>
        set (map sourceNodeId (filter (\<lambda>c'. targetNodeId c' = targetNodeId c) connections))"
      using c by auto
    ultimately show "appears_before order (sourceNodeId c) (targetNodeId c)"
      using o(4) by blast
  qed
  then show ?thesis
    using o c buildDependencies_returns [OF tgt, of ap] by (simp add: analyzeFlow_def)
qed

text \<open>
  Where \<open>buildDependencies\<close> returns and the source of every connection is a node,
  \<open>analyzeFlow\<close> returns, and every node id occurs in its execution order exactly once
  (so the order is a permutation of the list of node ids, these being distinct),
  whatever the cycles and the isolated nodes are.
\<close>

lemma analyzeFlow_order_each_id_once:
  assumes "\<forall>c \<in> set connections. sourceNodeId c \<in> node_id ` set nodes"
    and "\<forall>c \<in> set connections. targetNodeId c \<in> node_id ` set nodes \<or>
             (targetNodeId c \<notin> set objectPrototypeKeys \<and> ''__proto__'' \<notin> node_id ` set nodes)"
    and "length nodes < fuel"
  shows "\<exists>fa. analyzeFlow fuel ap nodes connections = Some (Inr fa) \<and>
           distinct (executionOrder fa) \<and>
           set (executionOrder fa) = node_id ` set nodes \<and>
           (distinct (map node_id nodes) \<longrightarrow> mset (executionOrder fa) = mset (map node_id nodes))"
proof -
  obtain order cs where a: "analyzeFlow fuel ap nodes connections =
            Some (Inr \<lparr>executionOrder = order, dependencies = connDeps nodes connections,
                       cycles = cs, isolatedNodes = findIsolatedNodes nodes connections\<rparr>)"
      "distinct order" "set order = node_id ` set nodes"
    using analyzeFlow_total [OF assms] by blast
  have "distinct (map node_id nodes) \<longrightarrow> mset order = mset (map node_id nodes)"
  proof
    assume "distinct (map node_id nodes)"
    moreover have "set order = set (map node_id nodes)" using a(3) by simp
    ultimately show "mset order = mset (map node_id nodes)"
      using a(2) set_eq_iff_mset_eq_distinct by blast
  qed
  with a show ?thesis by simp
qed

text \<open>
  C10. The execution order is not a permutation of the node ids on every input whose
  sources resolve, because \<open>analyzeFlow\<close> does not return on every such input: when
  the target of some connection is no node and is a name that \<open>dependencies\<close>
  inherits from \<open>Object.prototype\<close> (such as \<open>constructor\<close>), the test
  \<open>if (dependencies[connection.targetNodeId])\<close> succeeds on the inherited value, which
  has no \<open>push\<close>, and \<open>analyzeFlow\<close> throws a \<open>TypeError\<close>.
\<close>

theorem analyzeFlow_throws_on_inherited_target:
  assumes "c \<in> set connections"
    and "targetNodeId c \<notin> node_id ` set nodes"
    and "targetNodeId c \<in> set objectPrototypeKeys"
  shows "analyzeFlow fuel arrayProto nodes connections = Some (Inl TypeError)"
  using buildDependencies_throws [OF assms] by (simp add: analyzeFlow_def)

text \<open>
  The theorem of C10 on one node \<open>a\<close> and one connection from \<open>a\<close> into
  \<open>constructor\<close>: the source resolves, the target is no node.
\<close>

theorem analyzeFlow_throws_on_inherited_target_witness:
  "sourceNodeId (mkConn ''e1'' ''a'' ''constructor'') \<in> node_id ` set [mkNode ''a'' ''token'' ''Mint''] \<and>
   analyzeFlow 2 (set arrayPrototypeKeys) [mkNode ''a'' ''token'' ''Mint'']
       [mkConn ''e1'' ''a'' ''constructor'']
     = Some (Inl TypeError)"
  using analyzeFlow_throws_on_inherited_target [of "mkConn ''e1'' ''a'' ''constructor''"
      "[mkConn ''e1'' ''a'' ''constructor'']" "[mkNode ''a'' ''token'' ''Mint'']" 2
      "set arrayPrototypeKeys"]
  by (simp add: mkNode_def mkConn_def objectPrototypeKeys_def)

text \<open>
  C6. For an acyclic graph whose connections all start and end at nodes of the input,
  \<open>analyzeFlow\<close> returns (whatever the properties of \<open>Array.prototype\<close> are named), and
  for every connection the source appears before the
  target in the execution order (which lists no id twice).
\<close>

theorem analyzeFlow_dependency_first:
  assumes "acyclic (edges connections)"
    and "\<forall>c \<in> set connections.
           sourceNodeId c \<in> node_id ` set nodes \<and> targetNodeId c \<in> node_id ` set nodes"
    and "length nodes < fuel"
  shows "\<exists>fa. analyzeFlow fuel arrayProto nodes connections = Some (Inr fa) \<and>
           distinct (executionOrder fa) \<and>
           (\<forall>c \<in> set connections.
              appears_before (executionOrder fa) (sourceNodeId c) (targetNodeId c))"
proof -
  have src: "\<forall>c \<in> set connections. sourceNodeId c \<in> node_id ` set nodes" using assms(2) by simp
  have tgt: "\<forall>c \<in> set connections. targetNodeId c \<in> node_id ` set nodes \<or>
             (targetNodeId c \<notin> set objectPrototypeKeys \<and> ''__proto__'' \<notin> node_id ` set nodes)"
    using assms(2) by simp
  show ?thesis
    using analyzeFlow_total [OF src tgt assms(3), of arrayProto] assms(1,2) by fastforce
qed

text \<open>The theorem of C6 on the graph \<open>chain\<close>.\<close>

theorem analyzeFlow_dependency_first_witness:
  "length chain_nodes < 4 \<and>
   (\<exists>fa. analyzeFlow 4 (set arrayPrototypeKeys) chain_nodes chain_conns = Some (Inr fa) \<and>
      distinct (executionOrder fa) \<and>
      (\<forall>c \<in> set chain_conns.
         appears_before (executionOrder fa) (sourceNodeId c) (targetNodeId c)))"
proof -
  have ac: "acyclic (edges chain_conns)"
  proof (rule acyclicI_order)
    fix x y assume "(x, y) \<in> edges chain_conns"
    then show "chain_rank y < chain_rank x"
      by (auto simp: edges_def chain_conns_def mkConn_def chain_rank_def)
  qed
  have ends: "\<forall>c \<in> set chain_conns.
      sourceNodeId c \<in> node_id ` set chain_nodes \<and> targetNodeId c \<in> node_id ` set chain_nodes"
    by (simp add: chain_nodes_def chain_conns_def mkNode_def mkConn_def)
  have len: "length chain_nodes < 4" by (simp add: chain_nodes_def)
  from analyzeFlow_dependency_first [OF ac ends len, of "set arrayPrototypeKeys"] len
  show ?thesis by simp
qed

lemma visit_done:
  "n \<in> ts_visiting st \<or> n \<in> ts_visited st \<Longrightarrow> visit (Suc k) d n st = Some (Inr st)"
  by auto

lemma visit_fresh:
  assumes "n \<notin> ts_visiting st" "n \<notin> ts_visited st" "visit (Suc k) d n st = Some (Inr st')"
  obtains ds s' where "d n = Some ds"
    and "forEach (visit k d) ds (st\<lparr>ts_visiting := insert n (ts_visiting st)\<rparr>) = Some (Inr s')"
    and "st' = s'\<lparr>ts_visiting := ts_visiting s' - {n}, ts_visited := insert n (ts_visited s'),
                   ts_result := ts_result s' @ [n]\<rparr>"
  using assms by (auto split: option.splits sum.splits)

lemma visit_visiting:
  "visit k d n st = Some (Inr st') \<Longrightarrow> ts_visiting st' = ts_visiting st"
proof (induction k arbitrary: n st st')
  case 0
  then show ?case by simp
next
  case (Suc k)
  show ?case
  proof (cases "n \<in> ts_visiting st \<or> n \<in> ts_visited st")
    case True
    then show ?thesis using Suc.prems visit_done [OF True, of k d] by simp
  next
    case False
    then obtain ds s' where ds: "d n = Some ds"
      and s': "forEach (visit k d) ds (st\<lparr>ts_visiting := insert n (ts_visiting st)\<rparr>) = Some (Inr s')"
      and st': "st' = s'\<lparr>ts_visiting := ts_visiting s' - {n}, ts_visited := insert n (ts_visited s'),
                     ts_result := ts_result s' @ [n]\<rparr>"
      using Suc.prems visit_fresh [of n st k d st'] by blast
    have "(\<lambda>(pre::string list) s. ts_visiting s = insert n (ts_visiting st)) ds s'"
      by (rule forEach_partial [OF s']) (auto dest: Suc.IH)
    then show ?thesis using st' False by auto
  qed
qed

lemma forEach_not_None:
  assumes "P s"
    and "\<And>x t. x \<in> set xs \<Longrightarrow> P t \<Longrightarrow> f x t \<noteq> None \<and> (\<forall>t'. f x t = Some (Inr t') \<longrightarrow> P t')"
  shows "forEach f xs s \<noteq> None"
  using assms
proof (induction xs arbitrary: s)
  case Nil
  then show ?case by simp
next
  case (Cons x xs)
  from Cons.prems(2) [of x s] Cons.prems(1)
  have a: "f x s \<noteq> None" and b: "\<And>t'. f x s = Some (Inr t') \<Longrightarrow> P t'" by auto
  show ?case
  proof (cases "f x s")
    case None
    with a show ?thesis by simp
  next
    case (Some r)
    show ?thesis
    proof (cases r)
      case (Inl e)
      with Some show ?thesis by simp
    next
      case (Inr t')
      with Some b have p: "P t'" by simp
      have "forEach f xs t' \<noteq> None"
      proof (rule Cons.IH [OF p])
        fix y t
        assume "y \<in> set xs" "P t"
        then show "f y t \<noteq> None \<and> (\<forall>t'. f y t = Some (Inr t') \<longrightarrow> P t')"
          using Cons.prems(2) [of y t] by simp
      qed
      with Some Inr show ?thesis by simp
    qed
  qed
qed

lemma visit_not_None:
  assumes fin: "finite (dom d)"
  shows "card (dom d - ts_visiting st) < k \<Longrightarrow> visit k d n st \<noteq> None"
proof (induction k arbitrary: n st)
  case 0
  then show ?case by simp
next
  case (Suc k)
  show ?case
  proof (cases "n \<in> ts_visiting st \<or> n \<in> ts_visited st")
    case True
    then show ?thesis using visit_done [OF True, of k d] by simp
  next
    case False
    then have nV: "n \<notin> ts_visiting st" and nD: "n \<notin> ts_visited st" by auto
    show ?thesis
    proof (cases "d n")
      case None
      then show ?thesis using nV nD by simp
    next
      case (Some ds)
      then have nd: "n \<in> dom d" by auto
      have bound: "card (dom d - insert n (ts_visiting st)) < k"
        using card_diff_insert_less [OF fin nd nV] Suc.prems by simp
      have "forEach (visit k d) ds (st\<lparr>ts_visiting := insert n (ts_visiting st)\<rparr>) \<noteq> None"
      proof (rule forEach_not_None [where P = "\<lambda>s::sort_state. ts_visiting s = insert n (ts_visiting st)"])
        show "ts_visiting (st\<lparr>ts_visiting := insert n (ts_visiting st)\<rparr>) = insert n (ts_visiting st)"
          by simp
      next
        fix x and t :: sort_state
        assume "x \<in> set ds" and t: "ts_visiting t = insert n (ts_visiting st)"
        then have "visit k d x t \<noteq> None" using Suc.IH [of t x] bound by simp
        then show "visit k d x t \<noteq> None \<and>
            (\<forall>t'. visit k d x t = Some (Inr t') \<longrightarrow> ts_visiting t' = insert n (ts_visiting st))"
          using t visit_visiting [of k d x t] by auto
      qed
      then show ?thesis using nV nD Some by (auto split: option.splits sum.splits)
    qed
  qed
qed

lemma visit_reach:
  "visit k d n st = Some (Inr st') \<Longrightarrow> reach_inv d st \<Longrightarrow>
     reach_inv d st' \<and> (n \<in> ts_visited st' \<or> n \<in> ts_visiting st) \<and>
     ts_visited st \<subseteq> ts_visited st'"
proof (induction k arbitrary: n st st')
  case 0
  then show ?case by simp
next
  case (Suc k)
  show ?case
  proof (cases "n \<in> ts_visiting st \<or> n \<in> ts_visited st")
    case True
    then have "st' = st" using Suc.prems(1) visit_done [OF True, of k d] by simp
    then show ?thesis using True Suc.prems(2) by auto
  next
    case False
    let ?st1 = "st\<lparr>ts_visiting := insert n (ts_visiting st)\<rparr>"
    from False obtain ds s' where ds: "d n = Some ds"
      and s': "forEach (visit k d) ds ?st1 = Some (Inr s')"
      and st': "st' = s'\<lparr>ts_visiting := ts_visiting s' - {n}, ts_visited := insert n (ts_visited s'),
                     ts_result := ts_result s' @ [n]\<rparr>"
      using Suc.prems(1) visit_fresh [of n st k d st'] by blast
    let ?P = "\<lambda>pre s. reach_inv d s \<and> ts_visiting s = insert n (ts_visiting st) \<and>
                set pre \<subseteq> dom d \<and> ts_visited st \<subseteq> ts_visited s"
    have "?P ds s'"
    proof (rule forEach_partial [OF s'])
      show "?P [] ?st1" using Suc.prems(2) ds by (auto simp: reach_inv_def)
    next
      fix pre x post t t'
      assume xs: "ds = pre @ x # post" and P: "?P pre t" and v: "visit k d x t = Some (Inr t')"
      from Suc.IH [OF v] P have r: "reach_inv d t'" "x \<in> ts_visited t' \<or> x \<in> ts_visiting t"
        "ts_visited t \<subseteq> ts_visited t'" by auto
      have "x \<in> dom d" using r(1,2) P by (auto simp: reach_inv_def)
      then show "?P (pre @ [x]) t'"
        using r P visit_visiting [OF v] by auto
    qed
    then show ?thesis using st' ds by (auto simp: reach_inv_def)
  qed
qed

lemma topologicalSort_reach:
  assumes "topologicalSort k ids d = Some (Inr order)" "t \<in> set ids" "d t = Some ds"
  shows "set ds \<subseteq> dom d"
proof -
  let ?s0 = "\<lparr>ts_visited = {}, ts_visiting = {}, ts_result = []\<rparr>"
  from assms(1) obtain s' where s': "forEach (visit k d) ids ?s0 = Some (Inr s')"
    by (auto simp: topologicalSort_def split: option.splits sum.splits)
  let ?P = "\<lambda>pre s. reach_inv d s \<and> ts_visiting s = {} \<and> set pre \<subseteq> ts_visited s"
  have "?P ids s'"
  proof (rule forEach_partial [OF s'])
    show "?P [] ?s0" by (simp add: reach_inv_def)
  next
    fix pre x post u u'
    assume "ids = pre @ x # post" and P: "?P pre u" and v: "visit k d x u = Some (Inr u')"
    from visit_reach [OF v] P visit_visiting [OF v] show "?P (pre @ [x]) u'" by auto
  qed
  then have "t \<in> ts_visited s'" and "reach_inv d s'" using assms(2) by auto
  then show ?thesis using assms(3) unfolding reach_inv_def by blast
qed

lemma topologicalSort_not_None:
  assumes "finite (dom d)" "card (dom d) < k"
  shows "topologicalSort k ids d \<noteq> None"
proof -
  have "forEach (visit k d) ids \<lparr>ts_visited = {}, ts_visiting = {}, ts_result = []\<rparr> \<noteq> None"
  proof (rule forEach_not_None [where P = "\<lambda>s::sort_state. ts_visiting s = {}"])
    show "ts_visiting \<lparr>ts_visited = {}, ts_visiting = {}, ts_result = []\<rparr> = {}" by simp
  next
    fix x and t :: sort_state
    assume "x \<in> set ids" and t: "ts_visiting t = {}"
    then have "visit k d x t \<noteq> None" using visit_not_None [OF assms(1), of t k x] assms(2) by simp
    then show "visit k d x t \<noteq> None \<and> (\<forall>t'. visit k d x t = Some (Inr t') \<longrightarrow> ts_visiting t' = {})"
      using t visit_visiting [of k d x t] by auto
  qed
  then show ?thesis by (auto simp: topologicalSort_def split: option.splits sum.splits)
qed

text \<open>
  C1. \<open>analyzeFlow\<close> does not return normally on every input. Whenever some
  connection has a source that is no node of the input and a target that is one,
  \<open>analyzeFlow\<close> throws a \<open>TypeError\<close>: \<open>topologicalSort\<close> reaches the missing
  source, where \<open>dependencies[nodeId]\<close> is \<open>undefined\<close> or an inherited value without
  \<open>forEach\<close> (unless \<open>buildDependencies\<close> has thrown before).
\<close>

theorem analyzeFlow_throws_on_dangling_source:
  assumes "c \<in> set connections"
    and "sourceNodeId c \<notin> node_id ` set nodes"
    and "targetNodeId c \<in> node_id ` set nodes"
    and "length nodes < fuel"
  shows "analyzeFlow fuel arrayProto nodes connections = Some (Inl TypeError)"
proof -
  let ?d = "connDeps nodes connections"
  let ?ids = "map node_id nodes"
  have fin: "finite (dom ?d)" by (simp add: dom_connDeps)
  have k: "card (dom ?d) < fuel"
    using card_dom_connDeps [of nodes connections] assms(4) by simp
  have nn: "topologicalSort fuel ?ids ?d \<noteq> None" using topologicalSort_not_None [OF fin k] .
  have "topologicalSort fuel ?ids ?d \<noteq> Some (Inr order)" for order
  proof
    assume ts: "topologicalSort fuel ?ids ?d = Some (Inr order)"
    have dt: "?d (targetNodeId c) =
        Some (map sourceNodeId (filter (\<lambda>c'. targetNodeId c' = targetNodeId c) connections))"
      using assms(3) by (simp add: connDeps_apply)
    have "sourceNodeId c \<in> dom ?d"
      using topologicalSort_reach [OF ts _ dt] assms(1,3) by auto
    with assms(2) show False by (simp add: dom_connDeps)
  qed
  then have "topologicalSort fuel ?ids ?d = Some (Inl TypeError)"
  proof (cases "topologicalSort fuel ?ids ?d")
    case None
    with nn show ?thesis by simp
  next
    case (Some r)
    assume no: "\<And>order. topologicalSort fuel ?ids ?d \<noteq> Some (Inr order)"
    show ?thesis
    proof (cases r)
      case (Inl e)
      then show ?thesis using Some by (cases e) simp
    next
      case (Inr order)
      with Some no show ?thesis by simp
    qed
  qed
  then have ts: "topologicalSort fuel ?ids ?d = Some (Inl TypeError)" .
  show ?thesis
  proof (cases "buildDependencies arrayProto nodes connections")
    case None
    then show ?thesis using addDependencies_not_None by (simp add: buildDependencies_def)
  next
    case (Some r)
    show ?thesis
    proof (cases r)
      case (Inl e)
      then show ?thesis using Some by (cases e) (simp add: analyzeFlow_def)
    next
      case (Inr d)
      then have "d = ?d" using Some buildDependencies_result by blast
      then show ?thesis using Some Inr ts by (simp add: analyzeFlow_def)
    qed
  qed
qed

text \<open>The theorem of C1 on one node and one connection into it from a node that is gone.\<close>

theorem analyzeFlow_throws_on_dangling_source_witness:
  "analyzeFlow 2 (set arrayPrototypeKeys) [mkNode ''a'' ''token'' ''Mint'']
       [mkConn ''e1'' ''gone'' ''a'']
     = Some (Inl TypeError)"
  using analyzeFlow_throws_on_dangling_source [of "mkConn ''e1'' ''gone'' ''a''"
      "[mkConn ''e1'' ''gone'' ''a'']" "[mkNode ''a'' ''token'' ''Mint'']" 2 "set arrayPrototypeKeys"]
  by (simp add: mkNode_def mkConn_def)

section \<open>Properties of the code generator\<close>

lemma forEach_sim:
  assumes "forEach f xs s = Some (Inr s')"
    and "R s t"
    and "\<And>x u u' v. x \<in> set xs \<Longrightarrow> R u v \<Longrightarrow> f x u = Some (Inr u') \<Longrightarrow>
           \<exists>v'. g x v = Some (Inr v') \<and> R u' v'"
  shows "\<exists>t'. forEach g xs t = Some (Inr t') \<and> R s' t'"
  using assms
proof (induction xs arbitrary: s t)
  case Nil
  then show ?case by simp
next
  case (Cons x xs)
  from Cons.prems(1) obtain u where u: "f x s = Some (Inr u)" "forEach f xs u = Some (Inr s')"
    by (auto split: option.splits sum.splits)
  from Cons.prems(3) [of x s t u] Cons.prems(2) u(1)
  obtain v where v: "g x t = Some (Inr v)" "R u v" by auto
  have "\<exists>t'. forEach g xs v = Some (Inr t') \<and> R s' t'"
    using Cons.IH [OF u(2) v(2)] Cons.prems(3) by simp
  with v(1) show ?case by simp
qed

lemma forEach_map: "forEach (\<lambda>x. f (g x)) xs s = forEach f (map g xs) s"
  by (induction xs arbitrary: s) (auto split: option.splits sum.splits)

lemma findNode_Some:
  "i \<in> node_id ` set nodes \<Longrightarrow> \<exists>node. findNode nodes i = Some node \<and> node_id node = i"
  unfolding findNode_def by (induction nodes) auto

lemma findNode_None: "i \<notin> node_id ` set nodes \<Longrightarrow> findNode nodes i = None"
  unfolding findNode_def by (induction nodes) auto

lemma behavioralNames_append:
  "behavioralNames nodes (xs @ ys) = behavioralNames nodes xs @ behavioralNames nodes ys"
  by (simp add: behavioralNames_def)

lemma visit_account:
  assumes acc: "\<forall>c \<in> set conns. isAccount nodes (targetNodeId c) \<longrightarrow> isAccount nodes (sourceNodeId c)"
  shows "isAccount nodes n \<Longrightarrow> visit k (connDeps nodes conns) n st = Some (Inr st') \<Longrightarrow>
           account_step nodes st st'"
proof (induction k arbitrary: n st st')
  case 0
  then show ?case by simp
next
  case (Suc k)
  let ?d = "connDeps nodes conns"
  show ?case
  proof (cases "n \<in> ts_visiting st \<or> n \<in> ts_visited st")
    case True
    then have "st' = st" using Suc.prems(2) visit_done [OF True, of k ?d] by simp
    then show ?thesis by (simp add: account_step_def)
  next
    case False
    let ?st1 = "st\<lparr>ts_visiting := insert n (ts_visiting st)\<rparr>"
    from False obtain ds s' where ds: "?d n = Some ds"
      and s': "forEach (visit k ?d) ds ?st1 = Some (Inr s')"
      and st': "st' = s'\<lparr>ts_visiting := ts_visiting s' - {n}, ts_visited := insert n (ts_visited s'),
                     ts_result := ts_result s' @ [n]\<rparr>"
      using Suc.prems(2) visit_fresh [of n st k ?d st'] by blast
    have dsacc: "\<forall>x \<in> set ds. isAccount nodes x"
      using ds acc Suc.prems(1) by (auto simp: connDeps_apply split: if_splits)
    have "(\<lambda>(pre::string list) s. account_step nodes ?st1 s) ds s'"
    proof (rule forEach_partial [OF s'])
      show "account_step nodes ?st1 ?st1" by (simp add: account_step_def)
    next
      fix pre x post t t'
      assume "ds = pre @ x # post" "account_step nodes ?st1 t" "visit k ?d x t = Some (Inr t')"
      moreover from this have "account_step nodes t t'" using Suc.IH [of x t t'] dsacc by simp
      ultimately show "account_step nodes ?st1 t'" by (simp add: account_step_def)
    qed
    moreover have "\<not> isBehavioral nodes n"
      using Suc.prems(1) by (auto simp: isBehavioral_def isAccount_def split: option.splits)
    moreover have "behavioralNames nodes [n] = []"
      using Suc.prems(1) by (auto simp: behavioralNames_def isAccount_def split: option.splits)
    ultimately show ?thesis
      using st' False by (auto simp: account_step_def behavioralNames_append)
  qed
qed

lemma visit_sim:
  assumes src: "\<forall>c \<in> set conns. sourceNodeId c \<in> node_id ` set nodes"
    and acc: "\<forall>c \<in> set conns. isAccount nodes (targetNodeId c) \<longrightarrow> isAccount nodes (sourceNodeId c)"
  shows "n \<in> node_id ` set nodes \<Longrightarrow> flow_rel nodes sa sp \<Longrightarrow>
         visit k (connDeps nodes conns) n sa = Some (Inr sa') \<Longrightarrow>
         \<exists>sp'. visitFlow k nodes conns n sp = Some (Inr sp') \<and> flow_rel nodes sa' sp'"
proof (induction k arbitrary: n sa sp sa')
  case 0
  then show ?case by simp
next
  case (Suc k)
  let ?d = "connDeps nodes conns"
  from findNode_Some [OF Suc.prems(1)] obtain node where node: "findNode nodes n = Some node" by blast
  show ?case
  proof (cases "node_type node = ''account''")
    case True
    then have isacc: "isAccount nodes n" using node by (simp add: isAccount_def)
    then have nb: "\<not> isBehavioral nodes n" using node by (simp add: isBehavioral_def isAccount_def)
    have step: "account_step nodes sa sa'" using visit_account [OF acc isacc Suc.prems(3)] .
    have "flow_rel nodes sa' sp"
      using step Suc.prems(2) by (simp add: flow_rel_def account_step_def)
    then show ?thesis using node True nb by (auto simp: flow_rel_def)
  next
    case False
    then have isb: "isBehavioral nodes n" using node by (simp add: isBehavioral_def)
    show ?thesis
    proof (cases "n \<in> ts_visiting sa \<or> n \<in> ts_visited sa")
      case True
      then have "sa' = sa" using Suc.prems(3) visit_done [OF True, of k ?d] by simp
      moreover have "n \<in> pf_visiting sp \<or> n \<in> pf_visited sp"
        using True isb Suc.prems(2) by (auto simp: flow_rel_def)
      ultimately show ?thesis using Suc.prems(2) by auto
    next
      case nv: False
      then have nvp: "n \<notin> pf_visiting sp" "n \<notin> pf_visited sp"
        using isb Suc.prems(2) by (auto simp: flow_rel_def)
      let ?ds = "map sourceNodeId (filter (\<lambda>c. targetNodeId c = n) conns)"
      let ?sa1 = "sa\<lparr>ts_visiting := insert n (ts_visiting sa)\<rparr>"
      let ?sp1 = "sp\<lparr>pf_visiting := insert n (pf_visiting sp)\<rparr>"
      have ds: "?d n = Some ?ds" using Suc.prems(1) by (simp add: connDeps_apply)
      from nv ds obtain s2 where s2: "forEach (visit k ?d) ?ds ?sa1 = Some (Inr s2)"
        and sa': "sa' = s2\<lparr>ts_visiting := ts_visiting s2 - {n}, ts_visited := insert n (ts_visited s2),
                     ts_result := ts_result s2 @ [n]\<rparr>"
        using Suc.prems(3) visit_fresh [of n sa k ?d sa'] by auto
      have r1: "flow_rel nodes ?sa1 ?sp1" using Suc.prems(2) by (auto simp: flow_rel_def)
      have "\<exists>t'. forEach (visitFlow k nodes conns) ?ds ?sp1 = Some (Inr t') \<and> flow_rel nodes s2 t'"
      proof (rule forEach_sim [where R = "flow_rel nodes", OF s2 r1])
        fix x u u' v
        assume "x \<in> set ?ds" "flow_rel nodes u v" "visit k ?d x u = Some (Inr u')"
        moreover from this src have "x \<in> node_id ` set nodes" by auto
        ultimately show "\<exists>v'. visitFlow k nodes conns x v = Some (Inr v') \<and> flow_rel nodes u' v'"
          using Suc.IH by blast
      qed
      then obtain p2 where p2: "forEach (visitFlow k nodes conns) ?ds ?sp1 = Some (Inr p2)"
        and r2: "flow_rel nodes s2 p2" by blast
      have p2': "forEach (\<lambda>conn. visitFlow k nodes conns (sourceNodeId conn))
                  (filter (\<lambda>conn. targetNodeId conn = n) conns) ?sp1 = Some (Inr p2)"
        using p2 by (simp add: forEach_map [of "visitFlow k nodes conns" sourceNodeId])
      have bn: "behavioralNames nodes [n] = [node_name node]"
        using node False by (simp add: behavioralNames_def)
      have "flow_rel nodes sa'
          (p2\<lparr>pf_order := pf_order p2 @ [node_name node],
              pf_visiting := pf_visiting p2 - {n}, pf_visited := insert n (pf_visited p2)\<rparr>)"
        using r2 sa' bn by (auto simp: flow_rel_def behavioralNames_append)
      then show ?thesis using nvp node False p2' by simp
    qed
  qed
qed

lemma those_Some: "None \<notin> set xs \<Longrightarrow> \<exists>ys. those xs = Some ys"
proof (induction xs)
  case Nil
  then show ?case by simp
next
  case (Cons a xs)
  then obtain y ys where "a = Some y" "those xs = Some ys" by (cases a) auto
  then show ?case by simp
qed

lemma connectedInstructions_returns:
  assumes "\<forall>c \<in> set conns. sourceNodeId c \<in> node_id ` set nodes"
  shows "connectedInstructions node conns nodes \<noteq> Inl TypeError"
proof -
  let ?found = "map (\<lambda>conn. findNode nodes (sourceNodeId conn))
                  (filter (\<lambda>conn. targetNodeId conn = node_id node) conns)"
  have "None \<notin> set ?found"
    using assms findNode_Some by fastforce
  then have "None \<notin> set (filter (\<lambda>n. case n of None \<Rightarrow> True | Some m \<Rightarrow> node_type m \<noteq> ''account'') ?found)"
    by simp
  from those_Some [OF this] show ?thesis
    by (auto simp: connectedInstructions_def Let_def)
qed

lemma analyzeProgramFlow_agrees:
  assumes src: "\<forall>c \<in> set conns. sourceNodeId c \<in> node_id ` set nodes"
    and acc: "\<forall>c \<in> set conns. isAccount nodes (targetNodeId c) \<longrightarrow> isAccount nodes (sourceNodeId c)"
    and ts: "topologicalSort fuel (map node_id nodes) (connDeps nodes conns) = Some (Inr order)"
  shows "analyzeProgramFlow fuel nodes conns =
           Some (Inr \<lparr>entryPoints = flowEntryPoints nodes conns,
                      flowOrder = behavioralNames nodes order,
                      dataFlow = flowData nodes conns\<rparr>)"
proof -
  let ?d = "connDeps nodes conns"
  let ?s0 = "\<lparr>ts_visited = {}, ts_visiting = {}, ts_result = []\<rparr>"
  let ?p0 = "\<lparr>pf_visited = {}, pf_visiting = {}, pf_order = []\<rparr>"
  from ts obtain s' where s': "forEach (visit fuel ?d) (map node_id nodes) ?s0 = Some (Inr s')"
    and order: "order = ts_result s'"
    by (auto simp: topologicalSort_def split: option.splits sum.splits)
  have r0: "flow_rel nodes ?s0 ?p0" by (simp add: flow_rel_def behavioralNames_def)
  have "\<exists>t'. forEach (visitFlow fuel nodes conns) (map node_id nodes) ?p0 = Some (Inr t') \<and>
          flow_rel nodes s' t'"
  proof (rule forEach_sim [where R = "flow_rel nodes", OF s' r0])
    fix x u u' v
    assume "x \<in> set (map node_id nodes)" "flow_rel nodes u v" "visit fuel ?d x u = Some (Inr u')"
    then show "\<exists>v'. visitFlow fuel nodes conns x v = Some (Inr v') \<and> flow_rel nodes u' v'"
      using visit_sim [OF src acc, of x u v fuel u'] by simp
  qed
  then obtain p' where "forEach (visitFlow fuel nodes conns) (map node_id nodes) ?p0 = Some (Inr p')"
    and r: "flow_rel nodes s' p'" by blast
  then have "forEach (\<lambda>node. visitFlow fuel nodes conns (node_id node)) nodes ?p0 = Some (Inr p')"
    by (simp add: forEach_map [of "visitFlow fuel nodes conns" node_id])
  then show ?thesis using r order by (simp add: analyzeProgramFlow_def flow_rel_def)
qed

text \<open>
  C2, amended. When the source of every connection is a node of the input, the target
  of every connection is a node or names no property that \<open>dependencies\<close> inherits
  (it is none of the names of \<open>Object.prototype\<close>, and no node has the id
  \<open>__proto__\<close>), and every connection into an account node comes from an account
  node, then, the graph being acyclic or not, both functions return, and the execution order of \<open>analyzeFlow\<close>
  restricted to the behavioral nodes and mapped to their names is the execution order
  of the program flow of \<open>generateAnchorCode\<close>.
\<close>

theorem flow_orders_agree:
  assumes "\<forall>c \<in> set connections. sourceNodeId c \<in> node_id ` set nodes"
    and "\<forall>c \<in> set connections. targetNodeId c \<in> node_id ` set nodes \<or>
             (targetNodeId c \<notin> set objectPrototypeKeys \<and> ''__proto__'' \<notin> node_id ` set nodes)"
    and "\<forall>c \<in> set connections.
           isAccount nodes (targetNodeId c) \<longrightarrow> isAccount nodes (sourceNodeId c)"
    and "length nodes < fuel"
  shows "\<exists>fa g. analyzeFlow fuel arrayProto nodes connections = Some (Inr fa) \<and>
           generateAnchorCode fuel nodes connections = Some (Inr g) \<and>
           flowOrder (programFlow g) = behavioralNames nodes (executionOrder fa)"
proof -
  obtain order cs where a: "analyzeFlow fuel arrayProto nodes connections =
            Some (Inr \<lparr>executionOrder = order, dependencies = connDeps nodes connections,
                       cycles = cs, isolatedNodes = findIsolatedNodes nodes connections\<rparr>)"
    using analyzeFlow_total [OF assms(1,2,4), of arrayProto] by blast
  then have ts: "topologicalSort fuel (map node_id nodes) (connDeps nodes connections)
      = Some (Inr order)"
    using buildDependencies_returns [OF assms(2), of arrayProto]
    by (auto simp: analyzeFlow_def split: option.splits sum.splits)
  have "generateAnchorCode fuel nodes connections =
      Some (Inr \<lparr>integrationTests =
                   generateIntegrationTests (filter (\<lambda>node. node_type node \<noteq> ''account'') nodes) connections,
                 programFlow = \<lparr>entryPoints = flowEntryPoints nodes connections,
                      flowOrder = behavioralNames nodes order,
                      dataFlow = flowData nodes connections\<rparr>\<rparr>)"
    using analyzeProgramFlow_agrees [OF assms(1,3) ts] connectedInstructions_returns [OF assms(1)]
    by (simp add: generateAnchorCode_def)
  with a show ?thesis by simp
qed

lemma via_acyclic: "acyclic (edges via_conns)"
proof (rule acyclicI_order)
  fix x y assume "(x, y) \<in> edges via_conns"
  then show "via_rank y < via_rank x"
    by (auto simp: edges_def via_conns_def mkConn_def via_rank_def)
qed

lemma via_dependencies:
  "buildDependencies ap via_nodes via_conns = Some (Inr (connDeps via_nodes via_conns))"
  by (rule buildDependencies_returns) (simp add: via_nodes_def via_conns_def mkNode_def mkConn_def)

lemmas eval_defs = analyzeFlow_def topologicalSort_def detectCycles_def findIsolatedNodes_def
  connDeps_apply numeral_eq_Suc mkNode_def mkConn_def mkPort_def generateAnchorCode_def
  analyzeProgramFlow_def findNode_def flowEntryPoints_def flowData_def
  behavioralNames_def

text \<open>
  C2, as the claim states it, fails on the acyclic graph \<open>via\<close>: \<open>topologicalSort\<close>
  follows the connection into the account, \<open>analyzeProgramFlow\<close> does not visit the
  dependencies of an account, and the two orders of the behavioral nodes differ.
\<close>

theorem flow_orders_disagree_counterexample:
  "acyclic (edges via_conns) \<and>
   analyzeFlow 4 (set arrayPrototypeKeys) via_nodes via_conns =
     Some (Inr \<lparr>executionOrder = [''n1'', ''a'', ''n2''],
                dependencies = connDeps via_nodes via_conns,
                cycles = [], isolatedNodes = []\<rparr>) \<and>
   behavioralNames via_nodes [''n1'', ''a'', ''n2''] = [''First'', ''Second''] \<and>
   generateAnchorCode 4 via_nodes via_conns =
     Some (Inr \<lparr>integrationTests =
                  generateIntegrationTests
                    [mkNode ''n2'' ''token'' ''Second'', mkNode ''n1'' ''token'' ''First''] via_conns,
                programFlow = \<lparr>entryPoints = [''First''], flowOrder = [''Second'', ''First''],
                                dataFlow =
                                  [\<lparr>df_from = ''First'', df_to = ''Vault'', dataType = ''data'',
                                    required = True\<rparr>,
                                   \<lparr>df_from = ''Vault'', df_to = ''Second'', dataType = ''data'',
                                    required = True\<rparr>]\<rparr>\<rparr>)"
proof -
  have "analyzeFlow 4 (set arrayPrototypeKeys) via_nodes via_conns =
     Some (Inr \<lparr>executionOrder = [''n1'', ''a'', ''n2''],
                dependencies = connDeps via_nodes via_conns,
                cycles = [], isolatedNodes = []\<rparr>)"
    by (simp add: via_dependencies analyzeFlow_def)
       (simp add: via_nodes_def via_conns_def eval_defs)
  moreover have "behavioralNames via_nodes [''n1'', ''a'', ''n2''] = [''First'', ''Second'']"
    by (simp add: via_nodes_def eval_defs)
  moreover have "generateAnchorCode 4 via_nodes via_conns =
     Some (Inr \<lparr>integrationTests =
                  generateIntegrationTests
                    [mkNode ''n2'' ''token'' ''Second'', mkNode ''n1'' ''token'' ''First''] via_conns,
                programFlow = \<lparr>entryPoints = [''First''], flowOrder = [''Second'', ''First''],
                                dataFlow =
                                  [\<lparr>df_from = ''First'', df_to = ''Vault'', dataType = ''data'',
                                    required = True\<rparr>,
                                   \<lparr>df_from = ''Vault'', df_to = ''Second'', dataType = ''data'',
                                    required = True\<rparr>]\<rparr>\<rparr>)"
  proof -
    have "\<forall>c \<in> set via_conns. sourceNodeId c \<in> node_id ` set via_nodes"
      by (simp add: via_nodes_def via_conns_def mkNode_def mkConn_def)
    from connectedInstructions_returns [OF this] show ?thesis
      by (simp add: via_nodes_def via_conns_def eval_defs)
  qed
  ultimately show ?thesis using via_acyclic by simp
qed

text \<open>
  The amended C2 on the graph \<open>chain\<close>, which has an account, and on the graph
  \<open>cycle\<close>, which has a cycle and a connection into a node that is gone.
\<close>

theorem flow_orders_agree_witness:
  "(\<exists>fa g. analyzeFlow 4 (set arrayPrototypeKeys) chain_nodes chain_conns = Some (Inr fa) \<and>
      generateAnchorCode 4 chain_nodes chain_conns = Some (Inr g) \<and>
      flowOrder (programFlow g) = behavioralNames chain_nodes (executionOrder fa)) \<and>
   (\<exists>fa g. analyzeFlow 4 (set arrayPrototypeKeys) cycle_nodes cycle_conns = Some (Inr fa) \<and>
      generateAnchorCode 4 cycle_nodes cycle_conns = Some (Inr g) \<and>
      flowOrder (programFlow g) = behavioralNames cycle_nodes (executionOrder fa))"
proof -
  have src: "\<forall>c \<in> set chain_conns. sourceNodeId c \<in> node_id ` set chain_nodes"
    by (simp add: chain_nodes_def chain_conns_def mkNode_def mkConn_def)
  have tgt: "\<forall>c \<in> set chain_conns. targetNodeId c \<in> node_id ` set chain_nodes \<or>
      (targetNodeId c \<notin> set objectPrototypeKeys \<and> ''__proto__'' \<notin> node_id ` set chain_nodes)"
    by (simp add: chain_nodes_def chain_conns_def mkNode_def mkConn_def)
  have acc: "\<forall>c \<in> set chain_conns.
      isAccount chain_nodes (targetNodeId c) \<longrightarrow> isAccount chain_nodes (sourceNodeId c)"
    by (simp add: chain_nodes_def chain_conns_def mkNode_def mkConn_def isAccount_def findNode_def)
  have len: "length chain_nodes < 4" by (simp add: chain_nodes_def)
  have src': "\<forall>c \<in> set cycle_conns. sourceNodeId c \<in> node_id ` set cycle_nodes"
    by (simp add: cycle_nodes_def cycle_conns_def mkNode_def mkConn_def)
  have tgt': "\<forall>c \<in> set cycle_conns. targetNodeId c \<in> node_id ` set cycle_nodes \<or>
      (targetNodeId c \<notin> set objectPrototypeKeys \<and> ''__proto__'' \<notin> node_id ` set cycle_nodes)"
    by (simp add: cycle_nodes_def cycle_conns_def mkNode_def mkConn_def objectPrototypeKeys_def)
  have acc': "\<forall>c \<in> set cycle_conns.
      isAccount cycle_nodes (targetNodeId c) \<longrightarrow> isAccount cycle_nodes (sourceNodeId c)"
    by (simp add: cycle_nodes_def cycle_conns_def mkNode_def mkConn_def isAccount_def findNode_def)
  have len': "length cycle_nodes < 4" by (simp add: cycle_nodes_def)
  from flow_orders_agree [OF src tgt acc len, of "set arrayPrototypeKeys"]
       flow_orders_agree [OF src' tgt' acc' len', of "set arrayPrototypeKeys"]
  show ?thesis by simp
qed

text \<open>
  C3. On the graph \<open>swapped\<close> the execution order of the program flow is First,
  Second, while the integration test of the generated test file iterates Second,
  First: \<open>generateIntegrationTests\<close> lists the instruction nodes in input order.
\<close>

theorem integration_sequence_input_order:
  \<open>generateAnchorCode 3 swapped_nodes swapped_conns =
     Some (Inr \<lparr>integrationTests =
        ''\<newline>  describe("Integration Tests", () => {\<newline>'' @
        ''    it("should execute connected instructions in sequence", async () => {\<newline>'' @
        ''      console.log("'' @ [CHR 0xF0, CHR 0x9F, CHR 0x94, CHR 0x97] @
        '' Testing instruction connections");\<newline>'' @
        ''      \<newline>'' @
        ''      // Execute instructions based on their connections\<newline>'' @
        ''      const executionOrder = ["Second", "First"];\<newline>'' @
        ''      \<newline>'' @
        ''      for (const instructionName of executionOrder) {\<newline>'' @
        ''        console.log(`Executing: ${instructionName}`);\<newline>'' @
        ''        // Add specific execution logic here\<newline>'' @
        ''      }\<newline>'' @
        ''      \<newline>'' @
        ''      console.log("'' @ [CHR 0xE2, CHR 0x9C, CHR 0x85] @
        '' All connected instructions executed successfully");\<newline>'' @
        ''    });\<newline>'' @
        ''  });'',
        programFlow = \<lparr>entryPoints = [''First''], flowOrder = [''First'', ''Second''],
                        dataFlow =
                          [\<lparr>df_from = ''First'', df_to = ''Second'', dataType = ''data'',
                            required = True\<rparr>]\<rparr>\<rparr>)\<close>
proof -
  have "\<forall>c \<in> set swapped_conns. sourceNodeId c \<in> node_id ` set swapped_nodes"
    by (simp add: swapped_nodes_def swapped_conns_def mkNode_def mkConn_def)
  from connectedInstructions_returns [OF this] show ?thesis
    by (simp add: swapped_nodes_def swapped_conns_def eval_defs generateIntegrationTests_def)
qed

end
